theory Spec2Isabelle
  imports Main
begin

section \<open>Python strings\<close>

text \<open>
  Identifiers of a TL scheme are ASCII, and a Python \<^verbatim>\<open>str\<close> of ASCII characters is
  a list of characters. The character classes \<^verbatim>\<open>[A-Z]\<close>, \<^verbatim>\<open>[a-z]\<close> and
  \<^verbatim>\<open>[0-9]\<close> of \<^verbatim>\<open>re\<close> are ranges of code points; \<^verbatim>\<open>str.upper\<close> and \<^verbatim>\<open>str.lower\<close>
  are modelled on the ASCII letters and leave every other character as it is.
\<close>

definition is_upper :: "char \<Rightarrow> bool" where
  "is_upper c = (65 \<le> (of_char c :: nat) \<and> (of_char c :: nat) \<le> 90)"

definition is_lower :: "char \<Rightarrow> bool" where
  "is_lower c = (97 \<le> (of_char c :: nat) \<and> (of_char c :: nat) \<le> 122)"

definition is_digit :: "char \<Rightarrow> bool" where
  "is_digit c = (48 \<le> (of_char c :: nat) \<and> (of_char c :: nat) \<le> 57)"

definition upper_char :: "char \<Rightarrow> char" where
  "upper_char c = (if is_lower c then char_of ((of_char c :: nat) - 32) else c)"

definition lower_char :: "char \<Rightarrow> char" where
  "lower_char c = (if is_upper c then char_of ((of_char c :: nat) + 32) else c)"

definition upper :: "string \<Rightarrow> string" where
  "upper s = map upper_char s"

definition lower :: "string \<Rightarrow> string" where
  "lower s = map lower_char s"

text \<open>\<^verbatim>\<open>s.replace(c, '')\<close> for a one-character \<^verbatim>\<open>c\<close>.\<close>

definition remove_char :: "char \<Rightarrow> string \<Rightarrow> string" where
  "remove_char c s = filter (\<lambda>x. x \<noteq> c) s"

text \<open>
  \<^verbatim>\<open>s.split(c)\<close> for a one-character separator: the pieces between the occurrences of
  \<^verbatim>\<open>c\<close>, the empty ones too; the empty string splits into one empty piece.
\<close>

fun split :: "char \<Rightarrow> string \<Rightarrow> string list" where
  "split c [] = [[]]"
| "split c (x # xs) =
     (if x = c then [] # split c xs
      else (case split c xs of
              [] \<Rightarrow> [[x]]
            | w # ws \<Rightarrow> (x # w) # ws))"

section \<open>The objects of the scheme\<close>

text \<open>
  The fields of \<^verbatim>\<open>TLArg\<close> and \<^verbatim>\<open>TLObject\<close> that \<^verbatim>\<open>docs/generate.py\<close> reads. The
  argument's \<^verbatim>\<open>name\<close> and \<^verbatim>\<open>type\<close> are \<open>arg_name\<close> and \<open>arg_type\<close> here. A
  namespace is \<^verbatim>\<open>None\<close> or a string.
\<close>

record TLArg =
  arg_name :: string
  arg_type :: string
  is_flag :: bool
  is_vector :: bool
  is_generic :: bool
  flag_indicator :: bool
  generic_definition :: bool

record TLObject =
  name :: string
  namespace :: "string option"
  is_function :: bool
  result :: string
  args :: "TLArg list"

text \<open>
  \<^verbatim>\<open>get_class_name\<close> and \<^verbatim>\<open>get_file_name\<close> take a \<^verbatim>\<open>TLObject\<close> or a bare name and
  ask \<^verbatim>\<open>isinstance(tlobject, TLObject)\<close>.
\<close>

datatype tlref = Object TLObject | Name string

definition name_of :: "tlref \<Rightarrow> string" where
  "name_of t = (case t of Object ob \<Rightarrow> name ob | Name s \<Rightarrow> s)"

section \<open>Naming\<close>

text \<open>
  \<^verbatim>\<open>re.sub(r'_([a-z])', lambda m: m.group(1).upper(), name)\<close>: scanning from the left,
  an underscore followed by a lower-case letter is replaced by that letter in upper
  case, and the scan goes on after the letter.
\<close>

fun sub_underscore :: "string \<Rightarrow> string" where
  "sub_underscore (u # c # rest) =
     (if u = CHR ''_'' \<and> is_lower c then upper_char c # sub_underscore rest
      else u # sub_underscore (c # rest))"
| "sub_underscore s = s"

definition get_class_name :: "tlref \<Rightarrow> string" where
  "get_class_name tlobject =
     (let result = sub_underscore (name_of tlobject);
          result = upper (take 1 result) @ remove_char (CHR ''_'') (drop 1 result)
      in case tlobject of
           Object ob \<Rightarrow> if is_function ob then result @ ''Request'' else result
         | Name _ \<Rightarrow> result)"

text \<open>
  \<^verbatim>\<open>re.sub('(.)([A-Z][a-z]+)', r'\1_\2', name)\<close>: a character other than a newline,
  then an upper-case letter, then the longest run of at least one lower-case letter;
  an underscore goes in after the first character and the scan goes on after the run.
\<close>

function sub_capitalized :: "string \<Rightarrow> string" where
  "sub_capitalized [] = []"
| "sub_capitalized [c] = [c]"
| "sub_capitalized [c, u] = [c, u]"
| "sub_capitalized (c # u # l # rest) =
     (if c \<noteq> CHR 0x0A \<and> is_upper u \<and> is_lower l
      then c # CHR ''_'' # u # l # takeWhile is_lower rest
             @ sub_capitalized (dropWhile is_lower rest)
      else c # sub_capitalized (u # l # rest))"
  by pat_completeness auto
termination
  by (relation "measure length") (auto simp: less_Suc_eq_le intro: le_trans [OF length_dropWhile_le])

text \<open>
  \<^verbatim>\<open>re.sub('([a-z0-9])([A-Z])', r'\1_\2', s1)\<close>: a lower-case letter or digit followed
  by an upper-case letter; the scan goes on after the upper-case letter.
\<close>

fun sub_boundary :: "string \<Rightarrow> string" where
  "sub_boundary (a # u # rest) =
     (if (is_lower a \<or> is_digit a) \<and> is_upper u
      then a # CHR ''_'' # u # sub_boundary rest
      else a # sub_boundary (u # rest))"
| "sub_boundary s = s"

definition get_file_name :: "tlref \<Rightarrow> bool \<Rightarrow> string" where
  "get_file_name tlobject add_extension =
     (let s1 = sub_capitalized (name_of tlobject);
          result = lower (sub_boundary s1)
      in if add_extension then result @ ''.html'' else result)"

section \<open>Paths\<close>

text \<open>
  The functions of \<^verbatim>\<open>posixpath\<close> that the generator calls. What they read from the
  operating system is a parameter: the working directory that \<^verbatim>\<open>os.getcwd\<close> returns and
  the paths for which \<^verbatim>\<open>os.path.isfile\<close> holds.
\<close>

record filesystem =
  getcwd :: string
  isfile :: "string \<Rightarrow> bool"

datatype error = ValueError

definition startswith :: "string \<Rightarrow> string \<Rightarrow> bool" where
  "startswith s p = (take (length p) s = p)"

definition endswith :: "string \<Rightarrow> string \<Rightarrow> bool" where
  "endswith s p = (length p \<le> length s \<and> drop (length s - length p) s = p)"

definition rstrip :: "char \<Rightarrow> string \<Rightarrow> string" where
  "rstrip c s = rev (dropWhile (\<lambda>x. x = c) (rev s))"

text \<open>\<^verbatim>\<open>'/'.join(comps)\<close>.\<close>

fun sep_join :: "string list \<Rightarrow> string" where
  "sep_join [] = []"
| "sep_join [x] = x"
| "sep_join (x # y # zs) = x @ CHR ''/'' # sep_join (y # zs)"

text \<open>One round of the loop of \<^verbatim>\<open>os.path.join(a, *p)\<close>, and the loop.\<close>

definition join_step :: "string \<Rightarrow> string \<Rightarrow> string" where
  "join_step path b =
     (if startswith b ''/'' then b
      else if path = [] \<or> endswith path ''/'' then path @ b
      else path @ ''/'' @ b)"

definition join :: "string \<Rightarrow> string list \<Rightarrow> string" where
  "join a p = foldl join_step a p"

text \<open>
  \<^verbatim>\<open>os.path.dirname(p)\<close>: the head is \<^verbatim>\<open>p[:p.rfind('/') + 1]\<close>, everything up to the last
  slash and that slash; trailing slashes are stripped unless the head is slashes only.
\<close>

definition dirname :: "string \<Rightarrow> string" where
  "dirname p =
     (let head = rev (dropWhile (\<lambda>x. x \<noteq> CHR ''/'') (rev p))
      in if head \<noteq> [] \<and> head \<noteq> replicate (length head) (CHR ''/'')
         then rstrip (CHR ''/'') head else head)"

text \<open>
  \<^verbatim>\<open>os.path.normpath\<close>. One or two initial slashes are kept, three or more are one.
  \<open>norm_step\<close> is the body of the loop over the components, \<open>c\<close> the component.
\<close>

definition initial_slashes :: "string \<Rightarrow> nat" where
  "initial_slashes path =
     (if \<not> startswith path ''/'' then 0
      else if startswith path ''//'' \<and> \<not> startswith path ''///'' then 2
      else 1)"

definition norm_step :: "nat \<Rightarrow> string list \<Rightarrow> string \<Rightarrow> string list" where
  "norm_step init new_comps c =
     (if c = [] \<or> c = ''.'' then new_comps
      else if c \<noteq> ''..'' \<or> (init = 0 \<and> new_comps = [])
              \<or> (new_comps \<noteq> [] \<and> last new_comps = ''..'')
      then new_comps @ [c]
      else if new_comps \<noteq> [] then butlast new_comps
      else new_comps)"

definition norm_comps :: "string \<Rightarrow> string list" where
  "norm_comps path = foldl (norm_step (initial_slashes path)) [] (split (CHR ''/'') path)"

definition normpath :: "string \<Rightarrow> string" where
  "normpath path =
     (if path = [] then ''.''
      else let p = replicate (initial_slashes path) (CHR ''/'') @ sep_join (norm_comps path)
           in if p = [] then ''.'' else p)"

definition abspath :: "filesystem \<Rightarrow> string \<Rightarrow> string" where
  "abspath fs path =
     normpath (if startswith path ''/'' then path else join (getcwd fs) [path])"

text \<open>
  \<^verbatim>\<open>os.path.commonprefix\<close> of two lists: it compares the smaller with the larger of the
  two, item by item, and the outcome is their longest common prefix.
\<close>

fun commonprefix :: "'a list \<Rightarrow> 'a list \<Rightarrow> 'a list" where
  "commonprefix (x # xs) (y # ys) = (if x = y then x # commonprefix xs ys else [])"
| "commonprefix _ _ = []"

definition path_list :: "filesystem \<Rightarrow> string \<Rightarrow> string list" where
  "path_list fs p = filter (\<lambda>x. x \<noteq> []) (split (CHR ''/'') (abspath fs p))"

definition relpath :: "filesystem \<Rightarrow> string \<Rightarrow> string \<Rightarrow> error + string" where
  "relpath fs path start =
     (if path = [] then Inl ValueError
      else let start_list = path_list fs start;
               path_list = path_list fs path;
               i = length (commonprefix start_list path_list);
               rel_list = replicate (length start_list - i) ''..'' @ drop i path_list
           in case rel_list of
                [] \<Rightarrow> Inr ''.''
              | a # p \<Rightarrow> Inr (join a p))"

section \<open>Where the pages go\<close>


definition get_relative_path :: "filesystem \<Rightarrow> string \<Rightarrow> string \<Rightarrow> error + string" where
  "get_relative_path fs destination relative_to =
     (let relative_to = (if isfile fs relative_to then dirname relative_to else relative_to)
      in relpath fs destination relative_to)"

definition core_types :: "string list" where
  "core_types = [''int'', ''long'', ''int128'', ''int256'', ''double'',
                 ''vector'', ''string'', ''bool'', ''true'', ''bytes'', ''date'']"

text \<open>
  \<open>type_path\<close> is the value of the variable \<^verbatim>\<open>path\<close> of \<^verbatim>\<open>get_path_for_type\<close>. The
  unpacking \<^verbatim>\<open>namespace, name = type.split('.')\<close> raises \<^verbatim>\<open>ValueError\<close> unless the split
  has two pieces, \<open>ns\<close> and \<open>nm\<close> here.
\<close>

definition type_path :: "string \<Rightarrow> error + string" where
  "type_path type =
     (if lower type \<in> set core_types then Inr (''core/index.html#'' @ lower type)
      else if CHR ''.'' \<in> set type then
        (case split (CHR ''.'') type of
           [ns, nm] \<Rightarrow>
             Inr (''types/'' @ ns @ ''/'' @ get_file_name (Name nm) True)
         | _ \<Rightarrow> Inl ValueError)
      else Inr (''types/'' @ get_file_name (Name type) True))"

definition get_path_for_type :: "filesystem \<Rightarrow> string \<Rightarrow> string \<Rightarrow> error + string" where
  "get_path_for_type fs type relative_to =
     (case type_path type of
        Inl e \<Rightarrow> Inl e
      | Inr path \<Rightarrow> get_relative_path fs path relative_to)"

section \<open>What the pages show\<close>

text \<open>
  The table of parameters of an object's page (\<^verbatim>\<open>generate_documentation\<close>, the variable
  \<^verbatim>\<open>args\<close>): the arguments that are neither flag indicators nor generic definitions,
  through \<^verbatim>\<open>sorted(..., key=lambda a: a.is_flag)\<close>. Python's sort is stable and
  \<^verbatim>\<open>False < True\<close>; \<open>sort_key\<close> is the stable insertion sort of the library.
\<close>

definition sorted_args :: "TLObject \<Rightarrow> TLArg list" where
  "sorted_args tlobject =
     sort_key is_flag
       (filter (\<lambda>a. \<not> flag_indicator a \<and> \<not> generic_definition a) (args tlobject))"

text \<open>
  The dictionaries \<^verbatim>\<open>tltypes\<close> and \<^verbatim>\<open>tlfunctions\<close>, in the order in which their keys
  were inserted. \<open>dict_add\<close> is the body of the loop: append to the list stored under
  the key, or store a new one-element list.
\<close>

type_synonym dict = "(string \<times> TLObject list) list"

fun dict_add :: "dict \<Rightarrow> string \<Rightarrow> TLObject \<Rightarrow> dict" where
  "dict_add [] k v = [(k, [v])]"
| "dict_add ((k', vs) # d) k v =
     (if k' = k then (k', vs @ [v]) # d else (k', vs) # dict_add d k v)"

definition index_step :: "dict \<times> dict \<Rightarrow> TLObject \<Rightarrow> dict \<times> dict" where
  "index_step d tlobject =
     (if is_function tlobject
      then (fst d, dict_add (snd d) (result tlobject) tlobject)
      else (dict_add (fst d) (result tlobject) tlobject, snd d))"

definition build_index :: "TLObject list \<Rightarrow> dict \<times> dict" where
  "build_index tlobjects = foldl index_step ([], []) tlobjects"

definition tltypes :: "TLObject list \<Rightarrow> dict" where
  "tltypes tlobjects = fst (build_index tlobjects)"

definition tlfunctions :: "TLObject list \<Rightarrow> dict" where
  "tlfunctions tlobjects = snd (build_index tlobjects)"

text \<open>\<^verbatim>\<open>dictionary.get(key, [])\<close>.\<close>

definition dict_get :: "dict \<Rightarrow> string \<Rightarrow> TLObject list" where
  "dict_get d k = (case map_of d k of None \<Rightarrow> [] | Some vs \<Rightarrow> vs)"

text \<open>\<^verbatim>\<open>'%d' % n\<close> for a length \<open>n\<close>: its decimal digits.\<close>

function str_nat :: "nat \<Rightarrow> string" where
  "str_nat n =
     (if n < 10 then [char_of (48 + n)]
      else str_nat (n div 10) @ [char_of (48 + n mod 10)])"
  by pat_completeness auto
termination
  by (relation "measure (\<lambda>n. n)") auto

declare str_nat.simps [simp del]

text \<open>The sentences under the two subtitles of a type's page.\<close>

definition constructors_text :: "TLObject list \<Rightarrow> string" where
  "constructors_text constructors =
     (if constructors = [] then ''This type has no constructors available.''
      else if length constructors = 1 then ''This type has one constructor available.''
      else ''This type has '' @ str_nat (length constructors) @ '' constructors available.'')"

definition functions_text :: "TLObject list \<Rightarrow> string" where
  "functions_text functions =
     (if functions = [] then ''No method returns this type.''
      else if length functions = 1 then ''Only the following method returns this type.''
      else ''The following '' @ str_nat (length functions)
             @ '' methods return this type as a result.'')"

text \<open>
  The second loop of \<^verbatim>\<open>generate_documentation\<close> starts one page for each item of
  \<^verbatim>\<open>tltypes\<close>, in order. \<open>type_pages\<close> lists, for each of them, the type, the two
  sentences and the objects of the two tables. (An exception in a page ends the run, so
  the pages written are a prefix of this list.)
\<close>

record type_page =
  page_type :: string
  constructors_sentence :: string
  constructor_rows :: "TLObject list"
  functions_sentence :: string
  function_rows :: "TLObject list"

definition type_pages :: "TLObject list \<Rightarrow> type_page list" where
  "type_pages tlobjects =
     map (\<lambda>(tltype, constructors).
            let functions = dict_get (tlfunctions tlobjects) tltype
            in \<lparr>page_type = tltype,
                constructors_sentence = constructors_text constructors,
                constructor_rows = constructors,
                functions_sentence = functions_text functions,
                function_rows = functions\<rparr>)
         (tltypes tlobjects)"

section \<open>Example objects\<close>

text \<open>
  The scheme of the scenario: the function \<^verbatim>\<open>resolve_username\<close> and the constructor
  \<^verbatim>\<open>resolved_peer\<close>, both with result \<^verbatim>\<open>ResolvedPeer\<close>.
\<close>

definition resolve_username :: TLObject where
  "resolve_username =
     \<lparr>name = ''resolve_username'', namespace = None, is_function = True,
      result = ''ResolvedPeer'',
      args = [\<lparr>arg_name = ''username'', arg_type = ''string'', is_flag = False,
               is_vector = False, is_generic = False, flag_indicator = False,
               generic_definition = False\<rparr>]\<rparr>"

definition resolved_peer :: TLObject where
  "resolved_peer =
     \<lparr>name = ''resolved_peer'', namespace = None, is_function = False,
      result = ''ResolvedPeer'',
      args = [\<lparr>arg_name = ''peer'', arg_type = ''Peer'', is_flag = False,
               is_vector = False, is_generic = False, flag_indicator = False,
               generic_definition = False\<rparr>]\<rparr>"

text \<open>The page of the type \<^verbatim>\<open>ResolvedPeer\<close> in that scheme.\<close>

definition resolved_peer_page :: type_page where
  "resolved_peer_page =
     \<lparr>page_type = ''ResolvedPeer'',
      constructors_sentence = ''This type has one constructor available.'',
      constructor_rows = [resolved_peer],
      functions_sentence = ''Only the following method returns this type.'',
      function_rows = [resolve_username]\<rparr>"

text \<open>
  A run in the directory \<^verbatim>\<open>/docs\<close>: before any page is written no path is a regular
  file (\<open>fresh_fs\<close>); afterwards the page of \<^verbatim>\<open>resolved_peer\<close> is one (\<open>written_fs\<close>).
\<close>

definition fresh_fs :: filesystem where
  "fresh_fs = \<lparr>getcwd = ''/docs'', isfile = (\<lambda>p. False)\<rparr>"


section \<open>Notions for reasoning about paths\<close>

text \<open>
  The non-empty pieces of a path between its slashes; a component that
  \<^verbatim>\<open>normpath\<close> keeps as it is; the loop of \<^verbatim>\<open>normpath\<close> on the components of an
  absolute path; and the components that \<^verbatim>\<open>abspath\<close> puts in front of a path.
\<close>

definition comps :: "string \<Rightarrow> string list" where
  "comps s = filter (\<lambda>x. x \<noteq> []) (split (CHR ''/'') s)"

definition normal :: "string \<Rightarrow> bool" where
  "normal c = (c \<noteq> [] \<and> c \<noteq> ''.'' \<and> c \<noteq> ''..'' \<and> CHR ''/'' \<notin> set c)"

definition abs_norm :: "string list \<Rightarrow> string list" where
  "abs_norm cs = foldl (norm_step 1) [] cs"

definition base :: "filesystem \<Rightarrow> string \<Rightarrow> string list" where
  "base fs p = (if startswith p ''/'' then [] else comps (getcwd fs))"

section \<open>Notions for reasoning about names and numbers\<close>

text \<open>
  Where the underscores of a file name go, said position by position. After the
  character \<open>p\<close>, a capital \<open>u\<close> starts a capitalized run of several letters when a
  lower-case letter follows it and \<open>p\<close> is a character that \<^verbatim>\<open>.\<close> matches (any but a
  newline); \<open>p\<close> and \<open>u\<close> are a lower-case letter or digit and a capital that follows
  it; a boundary between two humps is either of them. \<open>split_lower_upper\<close> puts an
  underscore at each place of the second kind and \<open>split_humps\<close> at each boundary,
  the first character of the string having no place before it.
\<close>

definition capitalized_run :: "char \<Rightarrow> char \<Rightarrow> string \<Rightarrow> bool" where
  "capitalized_run p u rest =
     (p \<noteq> CHR 0x0A \<and> is_upper u \<and> (case rest of [] \<Rightarrow> False | l # _ \<Rightarrow> is_lower l))"

definition lower_upper :: "char \<Rightarrow> char \<Rightarrow> bool" where
  "lower_upper p u = ((is_lower p \<or> is_digit p) \<and> is_upper u)"

definition hump_boundary :: "char \<Rightarrow> char \<Rightarrow> string \<Rightarrow> bool" where
  "hump_boundary p u rest = (capitalized_run p u rest \<or> lower_upper p u)"

fun after_lower :: "char \<Rightarrow> string \<Rightarrow> string" where
  "after_lower p [] = []"
| "after_lower p (u # rest) =
     (if lower_upper p u then CHR ''_'' # u # after_lower u rest
      else u # after_lower u rest)"

fun at_humps :: "char \<Rightarrow> string \<Rightarrow> string" where
  "at_humps p [] = []"
| "at_humps p (u # rest) =
     (if hump_boundary p u rest then CHR ''_'' # u # at_humps u rest
      else u # at_humps u rest)"

definition split_lower_upper :: "string \<Rightarrow> string" where
  "split_lower_upper s = (case s of [] \<Rightarrow> [] | c # rest \<Rightarrow> c # after_lower c rest)"

definition split_humps :: "string \<Rightarrow> string" where
  "split_humps s = (case s of [] \<Rightarrow> [] | c # rest \<Rightarrow> c # at_humps c rest)"

text \<open>
  A word with its first character in upper case, \<^verbatim>\<open>w[:1].upper() + w[1:]\<close>: the
  words of a snake-case name, so written and put together, are the camel-case name.
\<close>

definition upper_first :: "string \<Rightarrow> string" where
  "upper_first w = upper (take 1 w) @ drop 1 w"

text \<open>The number that a string of decimal digits denotes.\<close>

definition digit_value :: "char \<Rightarrow> nat" where
  "digit_value c = of_char c - 48"

definition decimal :: "string \<Rightarrow> nat" where
  "decimal s = foldl (\<lambda>a c. 10 * a + digit_value c) 0 s"

section \<open>Characters\<close>

lemma upper_not_lower: "is_upper c \<Longrightarrow> \<not> is_lower c"
  by (simp add: is_upper_def is_lower_def)

lemma lower_not_upper: "is_lower c \<Longrightarrow> \<not> is_upper c"
  by (simp add: is_upper_def is_lower_def)

lemma upper_not_digit: "is_upper c \<Longrightarrow> \<not> is_digit c"
  by (simp add: is_upper_def is_digit_def)

lemma underscore_class:
  "\<not> is_upper (CHR ''_'')" "\<not> is_lower (CHR ''_'')" "\<not> is_digit (CHR ''_'')"
  by (simp_all add: is_upper_def is_lower_def is_digit_def)

lemma lower_char_id: "\<not> is_upper c \<Longrightarrow> lower_char c = c"
  by (simp add: lower_char_def)

lemma upper_char_id: "\<not> is_lower c \<Longrightarrow> upper_char c = c"
  by (simp add: upper_char_def)

lemma char_in_range:
  "lo \<le> (of_char c :: nat) \<Longrightarrow> (of_char c :: nat) \<le> hi \<Longrightarrow> c \<in> set (map char_of [lo..<Suc hi])"
proof -
  assume "lo \<le> (of_char c :: nat)" "(of_char c :: nat) \<le> hi"
  then have "(of_char c :: nat) \<in> set [lo..<Suc hi]" unfolding set_upt by simp
  then have "char_of (of_char c :: nat) \<in> char_of ` set [lo..<Suc hi]" by (rule imageI)
  then show ?thesis by simp
qed

lemma digits_range: "map char_of [48..<Suc 57] = ''0123456789''"
  by code_simp

lemma uppers_range: "map char_of [65..<Suc 90] = ''ABCDEFGHIJKLMNOPQRSTUVWXYZ''"
  by code_simp

lemma lowers_range: "map char_of [97..<Suc 122] = ''abcdefghijklmnopqrstuvwxyz''"
  by code_simp

lemma is_digit_set: "is_digit c = (c \<in> set ''0123456789'')"
proof
  assume "is_digit c"
  then have "c \<in> set (map char_of [48..<Suc 57])"
    unfolding is_digit_def by (intro char_in_range) simp_all
  then show "c \<in> set ''0123456789''" unfolding digits_range .
next
  assume "c \<in> set ''0123456789''"
  then show "is_digit c" by (auto simp: is_digit_def)
qed

lemma is_upper_set: "is_upper c = (c \<in> set ''ABCDEFGHIJKLMNOPQRSTUVWXYZ'')"
proof
  assume "is_upper c"
  then have "c \<in> set (map char_of [65..<Suc 90])"
    unfolding is_upper_def by (intro char_in_range) simp_all
  then show "c \<in> set ''ABCDEFGHIJKLMNOPQRSTUVWXYZ''" unfolding uppers_range .
next
  assume "c \<in> set ''ABCDEFGHIJKLMNOPQRSTUVWXYZ''"
  then show "is_upper c" by (auto simp: is_upper_def)
qed

lemma is_lower_set: "is_lower c = (c \<in> set ''abcdefghijklmnopqrstuvwxyz'')"
proof
  assume "is_lower c"
  then have "c \<in> set (map char_of [97..<Suc 122])"
    unfolding is_lower_def by (intro char_in_range) simp_all
  then show "c \<in> set ''abcdefghijklmnopqrstuvwxyz''" unfolding lowers_range .
next
  assume "c \<in> set ''abcdefghijklmnopqrstuvwxyz''"
  then show "is_lower c" by (auto simp: is_lower_def)
qed

lemma lower_letters: "lower ''ABCDEFGHIJKLMNOPQRSTUVWXYZ'' = ''abcdefghijklmnopqrstuvwxyz''"
  by code_simp

lemma upper_letters: "upper ''abcdefghijklmnopqrstuvwxyz'' = ''ABCDEFGHIJKLMNOPQRSTUVWXYZ''"
  by code_simp

lemma split_nonempty: "split c s \<noteq> []"
  by (induction s) (auto split: list.splits)

section \<open>Naming: file names\<close>

lemma lower_char_underscore: "(lower_char c = CHR ''_'') = (c = CHR ''_'')"
proof (cases "is_upper c")
  case True
  have "of_char (char_of ((of_char c :: nat) + 32)) = ((of_char c :: nat) + 32) mod 256"
    by (rule of_char_of)
  with True have "(of_char (lower_char c) :: nat) \<noteq> of_char (CHR ''_'')"
    by (simp add: lower_char_def is_upper_def)
  moreover from True have "c \<noteq> CHR ''_''" by (auto simp: is_upper_def)
  ultimately show ?thesis by auto
next
  case False
  then show ?thesis by (simp add: lower_char_def)
qed

lemma lower_char_not_upper: "\<not> is_upper (lower_char c)"
proof (cases "is_upper c")
  case True
  have "of_char (char_of ((of_char c :: nat) + 32)) = ((of_char c :: nat) + 32) mod 256"
    by (rule of_char_of)
  with True show ?thesis
    by (simp add: lower_char_def is_upper_def)
next
  case False
  then show ?thesis by (simp add: lower_char_def)
qed

lemma remove_sub_capitalized:
  "remove_char (CHR ''_'') (sub_capitalized s) = remove_char (CHR ''_'') s"
proof (induction s rule: sub_capitalized.induct)
  case (4 c u l rest)
  have "remove_char (CHR ''_'') (takeWhile is_lower rest)
          @ remove_char (CHR ''_'') (dropWhile is_lower rest)
        = remove_char (CHR ''_'') rest"
    unfolding remove_char_def by (simp flip: filter_append)
  with 4 show ?case by (auto simp: remove_char_def)
qed (simp_all add: remove_char_def)

lemma remove_sub_boundary:
  "remove_char (CHR ''_'') (sub_boundary s) = remove_char (CHR ''_'') s"
  by (induction s rule: sub_boundary.induct) (auto simp: remove_char_def)

lemma remove_lower:
  "remove_char (CHR ''_'') (lower s) = lower (remove_char (CHR ''_'') s)"
  by (induction s) (auto simp: remove_char_def lower_def lower_char_underscore)

lemma file_name_letters:
  "remove_char (CHR ''_'') (get_file_name t False) = lower (remove_char (CHR ''_'') (name_of t))"
  by (simp add: get_file_name_def remove_lower remove_sub_boundary remove_sub_capitalized)

lemma file_name_no_upper: "list_all (\<lambda>c. \<not> is_upper c) (get_file_name t False)"
  by (simp add: get_file_name_def lower_def list_all_iff lower_char_not_upper)

lemma after_lower_upper:
  "is_upper u \<Longrightarrow>
   after_lower u rest = (case rest of [] \<Rightarrow> [] | r # rs \<Rightarrow> r # after_lower r rs)"
  by (cases rest) (simp_all add: lower_upper_def upper_not_lower upper_not_digit)

lemma sub_boundary_positions: "sub_boundary s = split_lower_upper s"
proof (induction s rule: sub_boundary.induct)
  case (1 a u rest)
  show ?case
  proof (cases "(is_lower a \<or> is_digit a) \<and> is_upper u")
    case True
    then have u: "is_upper u" by simp
    from True 1(1) have "sub_boundary rest = split_lower_upper rest"
      by simp
    also have "\<dots> = after_lower u rest"
      using after_lower_upper [OF u, of rest] by (simp add: split_lower_upper_def)
    finally show ?thesis using True by (simp add: split_lower_upper_def lower_upper_def)
  next
    case False
    with 1(2) show ?thesis by (auto simp: split_lower_upper_def lower_upper_def)
  qed
qed (simp_all add: split_lower_upper_def)

lemma sub_boundary_Cons: "sub_boundary (x # xs) = x # after_lower x xs"
  by (simp add: sub_boundary_positions split_lower_upper_def)

lemma after_lower_run:
  "list_all is_lower ys \<Longrightarrow> after_lower p (ys @ zs) = ys @ after_lower (last (p # ys)) zs"
  by (induction ys arbitrary: p) (simp_all add: lower_not_upper lower_upper_def)

lemma at_humps_run:
  "list_all is_lower ys \<Longrightarrow> at_humps p (ys @ zs) = ys @ at_humps (last (p # ys)) zs"
  by (induction ys arbitrary: p)
     (simp_all add: lower_not_upper hump_boundary_def capitalized_run_def lower_upper_def)

lemma sub_capitalized_hd: "sub_capitalized (x # xs) = x # tl (sub_capitalized (x # xs))"
  by (cases "x # xs" rule: sub_capitalized.cases) auto

lemma two_passes_positions: "sub_boundary (sub_capitalized s) = split_humps s"
proof (induction s rule: sub_capitalized.induct)
  case 1
  show ?case by (simp add: split_humps_def)
next
  case (2 c)
  show ?case by (simp add: split_humps_def)
next
  case (3 c u)
  show ?case
    by (simp add: split_humps_def hump_boundary_def capitalized_run_def lower_upper_def)
next
  case (4 c u l rest)
  show ?case
  proof (cases "c \<noteq> CHR 0x0A \<and> is_upper u \<and> is_lower l")
    case True
    define tw where "tw = takeWhile is_lower rest"
    define dw where "dw = dropWhile is_lower rest"
    define q where "q = last (l # tw)"
    have rest: "rest = tw @ dw" by (simp add: tw_def dw_def)
    have tw: "list_all is_lower tw" by (simp add: tw_def list_all_iff) (metis set_takeWhileD)
    have q: "is_lower q" using True tw by (cases tw rule: rev_cases) (auto simp: q_def)
    have ih: "sub_boundary (sub_capitalized dw) = split_humps dw"
      using 4(1) True by (simp add: dw_def)
    have tail: "after_lower q (sub_capitalized dw) = at_humps q dw"
    proof (cases dw)
      case Nil
      then show ?thesis by simp
    next
      case (Cons d r)
      from ih Cons have "after_lower d (tl (sub_capitalized (d # r))) = at_humps d r"
        using sub_capitalized_hd [of d r]
          sub_boundary_Cons [of d "tl (sub_capitalized (d # r))"]
        by (simp add: split_humps_def)
      then show ?thesis
        using Cons q sub_capitalized_hd [of d r]
        by (cases "sub_capitalized (d # r)")
           (auto simp: hump_boundary_def capitalized_run_def lower_upper_def)
    qed
    have l1: "sub_boundary (sub_capitalized (c # u # l # rest))
          = c # CHR ''_'' # u # l # after_lower l (tw @ sub_capitalized dw)"
      using True
      by (simp add: sub_boundary_Cons lower_upper_def underscore_class upper_not_lower
          upper_not_digit tw_def dw_def)
    have l2: "after_lower l (tw @ sub_capitalized dw) = tw @ after_lower q (sub_capitalized dw)"
      using tw by (simp add: after_lower_run q_def)
    have r1: "split_humps (c # u # l # rest) = c # CHR ''_'' # u # l # at_humps l (tw @ dw)"
      using True
      by (simp add: split_humps_def hump_boundary_def capitalized_run_def lower_upper_def
          lower_not_upper rest)
    have r2: "at_humps l (tw @ dw) = tw @ at_humps q dw"
      using tw by (simp add: at_humps_run q_def)
    show ?thesis unfolding l1 l2 r1 r2 tail by (rule refl)
  next
    case False
    have ih: "sub_boundary (sub_capitalized (u # l # rest)) = split_humps (u # l # rest)"
      using 4(2) False by simp
    obtain T where T: "sub_capitalized (u # l # rest) = u # T"
      using sub_capitalized_hd [of u "l # rest"] by blast
    from ih T have "after_lower u T = at_humps u (l # rest)"
      by (simp add: sub_boundary_Cons split_humps_def)
    with False T show ?thesis
      by (auto simp: sub_boundary_Cons split_humps_def hump_boundary_def
          capitalized_run_def lower_upper_def)
  qed
qed

lemma file_name_positions:
  "get_file_name t False = lower (split_humps (name_of t))"
  by (simp add: get_file_name_def two_passes_positions)

lemma first_capitalized_run:
  assumes "xs \<noteq> []" and "last xs \<noteq> CHR 0x0A" and "list_all (\<lambda>x. \<not> is_upper x) (tl xs)"
    and "is_upper u" and "is_lower l"
  shows "sub_capitalized (xs @ u # l # rest)
    = xs @ CHR ''_'' # u # l # takeWhile is_lower rest
        @ sub_capitalized (dropWhile is_lower rest)"
  using assms(1-3)
proof (induction xs rule: list_nonempty_induct)
  case (single x)
  with assms(4,5) show ?case by simp
next
  case (cons x xs)
  from cons(1) obtain y ys where xs: "xs = y # ys" by (cases xs) auto
  from cons(4) xs have y: "\<not> is_upper y" and ys: "list_all (\<lambda>x. \<not> is_upper x) (tl xs)"
    by simp_all
  obtain z zs where z: "ys @ u # l # rest = z # zs" by (cases ys) auto
  have "sub_capitalized (x # y # z # zs) = x # sub_capitalized (y # z # zs)"
    using y by simp
  then have "sub_capitalized ((x # xs) @ u # l # rest) = x # sub_capitalized (xs @ u # l # rest)"
    by (simp add: xs z)
  moreover from cons(3) cons(1) have "last xs \<noteq> CHR 0x0A" by simp
  ultimately show ?case using cons(2) ys by simp
qed

text \<open>
  C4. \<^verbatim>\<open>get_file_name\<close> is the two passes and then \<^verbatim>\<open>lower\<close>. On \<^verbatim>\<open>GetFullUser\<close> the first
  pass puts an underscore before \<^verbatim>\<open>Full\<close> (a capital and its lower-case run, after any
  character), the second one between \<^verbatim>\<open>l\<close> and \<^verbatim>\<open>U\<close> (a lower-case letter or digit, then
  a capital), and the file name is \<^verbatim>\<open>get_full_user\<close>, with the extension
  \<^verbatim>\<open>get_full_user.html\<close>; on \<^verbatim>\<open>HTTPWait\<close> the first pass gives \<^verbatim>\<open>HTTP_Wait\<close>. For every
  name, the extension is appended to the same name, the passes insert underscores
  and nothing else, and the result has no upper-case letter.

  Where the underscores go, for every string: after a prefix with no capital past its
  first character, the first pass puts an underscore before a capital that a lower-case
  letter follows, keeps the run of lower-case letters and goes on after it; the second
  pass puts an underscore exactly between a lower-case letter or digit and a capital
  that follows it; the two passes together put an underscore exactly before each
  capital that starts a capitalized run or follows a lower-case letter or digit, and the
  file name is that string in lower case. The capitals are \<^verbatim>\<open>A\<close> to \<^verbatim>\<open>Z\<close>, the lower-case
  letters \<^verbatim>\<open>a\<close> to \<^verbatim>\<open>z\<close>, the digits \<^verbatim>\<open>0\<close> to \<^verbatim>\<open>9\<close>; \<^verbatim>\<open>lower\<close> maps each capital to
  its lower-case letter and leaves every other character. So \<^verbatim>\<open>A1B\<close> gives \<^verbatim>\<open>a1_b\<close>,
  \<^verbatim>\<open>HTTPWait\<close> gives \<^verbatim>\<open>http_wait\<close> and \<^verbatim>\<open>SomeRequest\<close> gives \<^verbatim>\<open>some_request\<close>.
\<close>

theorem get_file_name_two_passes:
  "get_file_name (Name ''GetFullUser'') False = ''get_full_user''
   \<and> get_file_name (Name ''GetFullUser'') True = ''get_full_user.html''
   \<and> sub_capitalized ''GetFullUser'' = ''Get_FullUser''
   \<and> sub_boundary ''Get_FullUser'' = ''Get_Full_User''
   \<and> sub_capitalized ''HTTPWait'' = ''HTTP_Wait''
   \<and> get_file_name t False = lower (sub_boundary (sub_capitalized (name_of t)))
   \<and> get_file_name t True = get_file_name t False @ ''.html''
   \<and> remove_char (CHR ''_'') (get_file_name t False)
       = lower (remove_char (CHR ''_'') (name_of t))
   \<and> list_all (\<lambda>c. \<not> is_upper c) (get_file_name t False)
   \<and> (xs \<noteq> [] \<and> last xs \<noteq> CHR 0x0A \<and> list_all (\<lambda>x. \<not> is_upper x) (tl xs)
        \<and> is_upper u \<and> is_lower l
      \<longrightarrow> sub_capitalized (xs @ u # l # rest)
          = xs @ CHR ''_'' # u # l # takeWhile is_lower rest
              @ sub_capitalized (dropWhile is_lower rest))
   \<and> sub_boundary s = split_lower_upper s
   \<and> sub_boundary (sub_capitalized s) = split_humps s
   \<and> get_file_name t False = lower (split_humps (name_of t))
   \<and> is_upper c = (c \<in> set ''ABCDEFGHIJKLMNOPQRSTUVWXYZ'')
   \<and> is_lower c = (c \<in> set ''abcdefghijklmnopqrstuvwxyz'')
   \<and> is_digit c = (c \<in> set ''0123456789'')
   \<and> lower ''ABCDEFGHIJKLMNOPQRSTUVWXYZ'' = ''abcdefghijklmnopqrstuvwxyz''
   \<and> (\<not> is_upper c \<longrightarrow> lower_char c = c)
   \<and> get_file_name (Name ''A1B'') False = ''a1_b''
   \<and> get_file_name (Name ''HTTPWait'') False = ''http_wait''
   \<and> get_file_name (Name ''SomeRequest'') False = ''some_request''"
proof -
  have a: "get_file_name (Name ''GetFullUser'') False = ''get_full_user''" by code_simp
  have b: "get_file_name (Name ''GetFullUser'') True = ''get_full_user.html''" by code_simp
  have c: "sub_capitalized ''GetFullUser'' = ''Get_FullUser''" by code_simp
  have d: "sub_boundary ''Get_FullUser'' = ''Get_Full_User''" by code_simp
  have e: "sub_capitalized ''HTTPWait'' = ''HTTP_Wait''" by code_simp
  have f: "get_file_name t False = lower (sub_boundary (sub_capitalized (name_of t)))"
    by (simp add: get_file_name_def)
  have g: "get_file_name t True = get_file_name t False @ ''.html''"
    by (simp add: get_file_name_def)
  have h: "get_file_name (Name ''A1B'') False = ''a1_b''" by code_simp
  have i: "get_file_name (Name ''HTTPWait'') False = ''http_wait''" by code_simp
  have j: "get_file_name (Name ''SomeRequest'') False = ''some_request''" by code_simp
  have k: "xs \<noteq> [] \<and> last xs \<noteq> CHR 0x0A \<and> list_all (\<lambda>x. \<not> is_upper x) (tl xs)
        \<and> is_upper u \<and> is_lower l
      \<longrightarrow> sub_capitalized (xs @ u # l # rest)
          = xs @ CHR ''_'' # u # l # takeWhile is_lower rest
              @ sub_capitalized (dropWhile is_lower rest)"
    using first_capitalized_run [of xs u l rest] by blast
  have l: "\<not> is_upper c \<longrightarrow> lower_char c = c"
    using lower_char_id [of c] by blast
  note file_name_letters [of t] file_name_no_upper [of t] sub_boundary_positions [of s]
    two_passes_positions [of s] file_name_positions [of t]
    is_upper_set [of c] is_lower_set [of c] is_digit_set [of c] lower_letters
  with a b c d e f g h i j k l show ?thesis by (intro conjI)
qed

theorem get_file_name_two_passes_witness:
  "''a1'' \<noteq> [] \<and> last ''a1'' \<noteq> CHR 0x0A \<and> list_all (\<lambda>x. \<not> is_upper x) (tl ''a1'')
   \<and> is_upper (CHR ''B'') \<and> is_lower (CHR ''c'') \<and> \<not> is_upper (CHR ''1'')
   \<and> sub_capitalized ''a1BcdEf'' = ''a1_BcdEf''
   \<and> lower_char (CHR ''1'') = CHR ''1''
   \<and> get_file_name (Name ''a1BcdEf'') False = ''a1_bcd_ef''"
proof -
  have h: "''a1'' \<noteq> [] \<and> last ''a1'' \<noteq> CHR 0x0A \<and> list_all (\<lambda>x. \<not> is_upper x) (tl ''a1'')
      \<and> is_upper (CHR ''B'') \<and> is_lower (CHR ''c'')"
    by code_simp
  have n: "\<not> is_upper (CHR ''1'')" by code_simp
  note t = get_file_name_two_passes [of "Name ''a1BcdEf''" "''a1''" "CHR ''B''" "CHR ''c''"
      "''dEf''" "''a1BcdEf''" "CHR ''1''"]
  from t h have "sub_capitalized (''a1'' @ CHR ''B'' # CHR ''c'' # ''dEf'')
      = ''a1'' @ CHR ''_'' # CHR ''B'' # CHR ''c'' # takeWhile is_lower ''dEf''
          @ sub_capitalized (dropWhile is_lower ''dEf'')"
    by blast
  also have "\<dots> = ''a1_BcdEf''" by code_simp
  finally have p: "sub_capitalized ''a1BcdEf'' = ''a1_BcdEf''" by simp
  from t n have q: "lower_char (CHR ''1'') = CHR ''1''" by blast
  from t have "get_file_name (Name ''a1BcdEf'') False
      = lower (split_humps (name_of (Name ''a1BcdEf'')))"
    by blast
  also have "\<dots> = ''a1_bcd_ef''" by code_simp
  finally have r: "get_file_name (Name ''a1BcdEf'') False = ''a1_bcd_ef''" .
  from h n p q r show ?thesis by blast
qed

section \<open>Naming: class names\<close>

lemma upper_char_not_lower: "\<not> is_lower (upper_char c)"
proof (cases "is_lower c")
  case True
  define n :: nat where "n = of_char c"
  from True have n: "97 \<le> n" "n \<le> 122" by (simp_all add: is_lower_def n_def)
  have "(of_char (upper_char c) :: nat) = (n - 32) mod 256"
    using True by (simp add: upper_char_def n_def of_char_of)
  also from n have "\<dots> = n - 32" by (intro mod_less) arith
  finally have "(of_char (upper_char c) :: nat) < 97" using n by arith
  then show ?thesis by (simp add: is_lower_def)
next
  case False
  then show ?thesis by (simp add: upper_char_def)
qed

lemma class_name_request:
  "get_class_name (Object ob)
   = get_class_name (Name (name ob)) @ (if is_function ob then ''Request'' else [])"
  by (simp add: get_class_name_def name_of_def Let_def)

lemma class_name_underscores:
  "CHR ''_'' \<notin> set (drop 1 (get_class_name (Name s)))"
  by (cases "sub_underscore s")
     (simp_all add: get_class_name_def name_of_def upper_def remove_char_def)

lemma class_name_first:
  "list_all (\<lambda>c. \<not> is_lower c) (take 1 (get_class_name (Name s)))"
  by (cases "sub_underscore s")
     (simp_all add: get_class_name_def name_of_def upper_def remove_char_def
        upper_char_not_lower)

lemma underscore_not_lower: "\<not> is_lower (CHR ''_'')"
  by (simp add: is_lower_def)

lemma upper_char_underscore: "(upper_char c = CHR ''_'') = (c = CHR ''_'')"
proof (cases "is_lower c")
  case True
  define n :: nat where "n = of_char c"
  from True have n: "97 \<le> n" "n \<le> 122" by (simp_all add: is_lower_def n_def)
  have "(of_char (upper_char c) :: nat) = (n - 32) mod 256"
    using True by (simp add: upper_char_def n_def of_char_of)
  also from n have "\<dots> = n - 32" by (intro mod_less) arith
  finally have "(of_char (upper_char c) :: nat) < 95" using n by arith
  then have "upper_char c \<noteq> CHR ''_''" by auto
  moreover from True have "c \<noteq> CHR ''_''" by (auto simp: is_lower_def)
  ultimately show ?thesis by simp
next
  case False
  then show ?thesis by (simp add: upper_char_def)
qed

lemma sub_underscore_match:
  "is_lower c \<Longrightarrow>
   sub_underscore (xs @ CHR ''_'' # c # ys) = sub_underscore xs @ upper_char c # sub_underscore ys"
  by (induction xs rule: sub_underscore.induct) (auto simp: underscore_not_lower)

lemma sub_underscore_keep:
  "\<not> is_lower c \<Longrightarrow>
   sub_underscore (xs @ CHR ''_'' # c # ys) = sub_underscore xs @ CHR ''_'' # sub_underscore (c # ys)"
  by (induction xs rule: sub_underscore.induct) (auto simp: underscore_not_lower)

lemma sub_underscore_none: "CHR ''_'' \<notin> set zs \<Longrightarrow> sub_underscore zs = zs"
  by (induction zs rule: sub_underscore.induct) auto

lemma words_sub_underscore:
  "remove_char (CHR ''_'') (sub_underscore s)
   = (case split (CHR ''_'') s of [] \<Rightarrow> [] | w # ws \<Rightarrow> w @ concat (map upper_first ws))"
proof (induction s rule: sub_underscore.induct)
  case (1 u c rest)
  obtain w ws where r: "split (CHR ''_'') rest = w # ws"
    using split_nonempty [of "CHR ''_''" rest] by (cases "split (CHR ''_'') rest") auto
  obtain v vs where cr: "split (CHR ''_'') (c # rest) = v # vs"
    using split_nonempty [of "CHR ''_''" "c # rest"] by (cases "split (CHR ''_'') (c # rest)") auto
  show ?case
  proof (cases "u = CHR ''_'' \<and> is_lower c")
    case True
    then have c: "c \<noteq> CHR ''_''" by (auto simp: is_lower_def)
    from True 1(1) r have "remove_char (CHR ''_'') (sub_underscore rest)
        = w @ concat (map upper_first ws)" by simp
    with True c r show ?thesis
      by (simp add: remove_char_def upper_char_underscore upper_first_def upper_def)
  next
    case False
    with 1(2) cr have ih: "remove_char (CHR ''_'') (sub_underscore (c # rest))
        = v @ concat (map upper_first vs)" by simp
    show ?thesis
    proof (cases "u = CHR ''_''")
      case True
      with False have nl: "\<not> is_lower c" by simp
      have "upper_first v = v"
        using cr nl by (cases "c = CHR ''_''")
          (auto simp: upper_first_def upper_def upper_char_id split: list.splits)
      with True False ih cr show ?thesis
        by (simp add: remove_char_def)
    next
      case u: False
      with False ih cr show ?thesis
        by (simp add: remove_char_def)
    qed
  qed
qed (simp_all add: remove_char_def upper_first_def upper_def)

lemma class_name_words:
  assumes "s \<noteq> []" and "hd s \<noteq> CHR ''_''"
  shows "get_class_name (Name s) = concat (map upper_first (split (CHR ''_'') s))"
proof -
  from assms obtain x rest where s: "s = x # rest" and x: "x \<noteq> CHR ''_''" by (cases s) auto
  obtain w ws where r: "split (CHR ''_'') rest = w # ws"
    using split_nonempty [of "CHR ''_''" rest] by (cases "split (CHR ''_'') rest") auto
  have "sub_underscore (x # rest) = x # sub_underscore rest"
    using x by (cases rest) simp_all
  then have "get_class_name (Name s)
      = upper_char x # remove_char (CHR ''_'') (sub_underscore rest)"
    by (simp add: get_class_name_def name_of_def s upper_def)
  also have "remove_char (CHR ''_'') (sub_underscore rest) = w @ concat (map upper_first ws)"
    using words_sub_underscore [of rest] r by simp
  finally show ?thesis using x r by (simp add: s upper_first_def upper_def)
qed

text \<open>
  C5. \<^verbatim>\<open>get_class_name\<close> of the name \<^verbatim>\<open>get_full_user\<close> is \<^verbatim>\<open>GetFullUser\<close>, and of a
  function object of that name \<^verbatim>\<open>GetFullUserRequest\<close>: the substitution turns each
  underscore with the lower-case letter after it into that letter in upper case
  (\<^verbatim>\<open>getFullUser\<close>), then the first character is put in upper case. For every object the
  class name is the class name of its name, followed by \<^verbatim>\<open>Request\<close> exactly when it is a
  function; after its first character a class name has no underscore, and its first
  character is no lower-case letter.

  For every string, the substitution replaces an underscore and the lower-case letter
  after it by that letter in upper case, wherever they stand, keeps an underscore that
  no lower-case letter follows, and changes nothing in a string without underscores.
  For every name that is not empty and does not start with an underscore, the class
  name is the words between the underscores of the name, each with its first character
  in upper case, one after the other. The lower-case letters are \<^verbatim>\<open>a\<close> to \<^verbatim>\<open>z\<close>;
  \<^verbatim>\<open>upper\<close> maps each to its capital and leaves every other character. So
  \<^verbatim>\<open>mixedCase_name\<close> gives \<^verbatim>\<open>MixedCaseName\<close> and \<^verbatim>\<open>input_peer_2d\<close> gives \<^verbatim>\<open>InputPeer2d\<close>.
\<close>

theorem get_class_name_camel:
  "get_class_name (Name ''get_full_user'') = ''GetFullUser''
   \<and> get_class_name (Object \<lparr>name = ''get_full_user'', namespace = None,
                               is_function = True, result = ''UserFull'', args = []\<rparr>)
       = ''GetFullUserRequest''
   \<and> sub_underscore ''get_full_user'' = ''getFullUser''
   \<and> get_class_name (Object ob)
       = get_class_name (Name (name ob)) @ (if is_function ob then ''Request'' else [])
   \<and> CHR ''_'' \<notin> set (drop 1 (get_class_name (Name s)))
   \<and> list_all (\<lambda>c. \<not> is_lower c) (take 1 (get_class_name (Name s)))
   \<and> (is_lower c
      \<longrightarrow> sub_underscore (xs @ CHR ''_'' # c # ys)
          = sub_underscore xs @ upper_char c # sub_underscore ys)
   \<and> (\<not> is_lower c
      \<longrightarrow> sub_underscore (xs @ CHR ''_'' # c # ys)
          = sub_underscore xs @ CHR ''_'' # sub_underscore (c # ys))
   \<and> (CHR ''_'' \<notin> set s \<longrightarrow> sub_underscore s = s)
   \<and> (s \<noteq> [] \<and> hd s \<noteq> CHR ''_''
      \<longrightarrow> get_class_name (Name s) = concat (map upper_first (split (CHR ''_'') s)))
   \<and> is_lower c = (c \<in> set ''abcdefghijklmnopqrstuvwxyz'')
   \<and> upper ''abcdefghijklmnopqrstuvwxyz'' = ''ABCDEFGHIJKLMNOPQRSTUVWXYZ''
   \<and> (\<not> is_lower c \<longrightarrow> upper_char c = c)
   \<and> get_class_name (Name ''mixedCase_name'') = ''MixedCaseName''
   \<and> get_class_name (Name ''input_peer_2d'') = ''InputPeer2d''"
proof -
  have a: "get_class_name (Name ''get_full_user'') = ''GetFullUser''" by code_simp
  have b: "get_class_name (Object \<lparr>name = ''get_full_user'', namespace = None,
                               is_function = True, result = ''UserFull'', args = []\<rparr>)
           = ''GetFullUserRequest''"
    by code_simp
  have c: "sub_underscore ''get_full_user'' = ''getFullUser''" by code_simp
  have d: "is_lower c
      \<longrightarrow> sub_underscore (xs @ CHR ''_'' # c # ys)
          = sub_underscore xs @ upper_char c # sub_underscore ys"
    using sub_underscore_match [of c xs ys] by blast
  have e: "\<not> is_lower c
      \<longrightarrow> sub_underscore (xs @ CHR ''_'' # c # ys)
          = sub_underscore xs @ CHR ''_'' # sub_underscore (c # ys)"
    using sub_underscore_keep [of c xs ys] by blast
  have f: "CHR ''_'' \<notin> set s \<longrightarrow> sub_underscore s = s"
    using sub_underscore_none [of s] by blast
  have g: "s \<noteq> [] \<and> hd s \<noteq> CHR ''_''
      \<longrightarrow> get_class_name (Name s) = concat (map upper_first (split (CHR ''_'') s))"
    using class_name_words [of s] by blast
  have h: "\<not> is_lower c \<longrightarrow> upper_char c = c"
    using upper_char_id [of c] by blast
  have i: "get_class_name (Name ''mixedCase_name'') = ''MixedCaseName''" by code_simp
  have j: "get_class_name (Name ''input_peer_2d'') = ''InputPeer2d''" by code_simp
  note class_name_request [of ob] class_name_underscores [of s] class_name_first [of s]
    is_lower_set [of c] upper_letters
  with a b c d e f g h i j show ?thesis by (intro conjI)
qed

theorem get_class_name_camel_witness:
  "is_lower (CHR ''f'') \<and> \<not> is_lower (CHR ''2'')
   \<and> ''input_full_2d'' \<noteq> [] \<and> hd ''input_full_2d'' \<noteq> CHR ''_''
   \<and> CHR ''_'' \<notin> set ''inputFull2d''
   \<and> sub_underscore ''input_full_2d'' = ''inputFull_2d''
   \<and> sub_underscore ''inputFull2d'' = ''inputFull2d''
   \<and> sub_underscore ''inputFull_2d'' = ''inputFull_2d''
   \<and> upper_char (CHR ''2'') = CHR ''2''
   \<and> get_class_name (Name ''input_full_2d'') = ''InputFull2d''"
proof -
  have h: "is_lower (CHR ''f'') \<and> \<not> is_lower (CHR ''2'')
      \<and> ''input_full_2d'' \<noteq> [] \<and> hd ''input_full_2d'' \<noteq> CHR ''_''
      \<and> CHR ''_'' \<notin> set ''inputFull2d''"
    by code_simp
  note t = get_class_name_camel [of resolved_peer "''input_full_2d''" "CHR ''f''" "''input''"
      "''ull_2d''"]
  note t2 = get_class_name_camel [of resolved_peer "''inputFull2d''" "CHR ''2''" "''inputFull''"
      "''d''"]
  from t h have "sub_underscore (''input'' @ CHR ''_'' # CHR ''f'' # ''ull_2d'')
      = sub_underscore ''input'' @ upper_char (CHR ''f'') # sub_underscore ''ull_2d''"
    by blast
  also have "\<dots> = ''inputFull_2d''" by code_simp
  finally have p: "sub_underscore ''input_full_2d'' = ''inputFull_2d''" by simp
  from t2 h have q: "sub_underscore ''inputFull2d'' = ''inputFull2d''" by blast
  from t2 h have r: "upper_char (CHR ''2'') = CHR ''2''" by blast
  from t2 h have "sub_underscore (''inputFull'' @ CHR ''_'' # CHR ''2'' # ''d'')
      = sub_underscore ''inputFull'' @ CHR ''_'' # sub_underscore (CHR ''2'' # ''d'')"
    by blast
  also have "\<dots> = ''inputFull_2d''" by code_simp
  finally have k: "sub_underscore ''inputFull_2d'' = ''inputFull_2d''" by simp
  from t h have "get_class_name (Name ''input_full_2d'')
      = concat (map upper_first (split (CHR ''_'') ''input_full_2d''))"
    by blast
  also have "\<dots> = ''InputFull2d''" by code_simp
  finally have u: "get_class_name (Name ''input_full_2d'') = ''InputFull2d''" .
  from h p q r k u show ?thesis by blast
qed

section \<open>The table of parameters\<close>

lemma insort_key_front:
  "\<not> f x \<Longrightarrow> insort_key f x ys = x # ys" for f :: "'a \<Rightarrow> bool"
  by (cases ys) simp_all

lemma insort_key_true:
  "f x \<Longrightarrow> \<forall>b \<in> set bs. f b \<Longrightarrow> insort_key f x bs = x # bs" for f :: "'a \<Rightarrow> bool"
  by (cases bs) simp_all

lemma insort_key_skip:
  "f x \<Longrightarrow> \<forall>a \<in> set as. \<not> f a \<Longrightarrow> insort_key f x (as @ bs) = as @ insort_key f x bs"
  for f :: "'a \<Rightarrow> bool"
  by (induction as) simp_all

lemma sort_key_bool:
  "sort_key f xs = filter (\<lambda>a. \<not> f a) xs @ filter f xs" for f :: "'a \<Rightarrow> bool"
proof (induction xs)
  case Nil
  show ?case by simp
next
  case (Cons x xs)
  show ?case
  proof (cases "f x")
    case True
    have "insort_key f x (filter (\<lambda>a. \<not> f a) xs @ filter f xs)
          = filter (\<lambda>a. \<not> f a) xs @ insort_key f x (filter f xs)"
      using True by (intro insort_key_skip) simp_all
    also have "insort_key f x (filter f xs) = x # filter f xs"
      using True by (intro insort_key_true) simp_all
    finally show ?thesis using True Cons by simp
  next
    case False
    then show ?thesis using Cons by (simp add: insort_key_front)
  qed
qed

text \<open>
  C6. The rows of the table of parameters are the displayable arguments (no flag
  indicator, no generic definition) with those that are not flags first and the flags
  last, each group in the order of the object's argument list. The arguments
  \<^verbatim>\<open>flagA\<close> (a flag), \<^verbatim>\<open>plain1\<close>, \<^verbatim>\<open>plain2\<close>, \<^verbatim>\<open>flagB\<close> (a flag), after a flag indicator
  that is not shown, come out as \<^verbatim>\<open>plain1\<close>, \<^verbatim>\<open>plain2\<close>, \<^verbatim>\<open>flagA\<close>, \<^verbatim>\<open>flagB\<close>.
\<close>

theorem sorted_args_flags_last:
  "sorted_args ob
   = filter (\<lambda>a. \<not> is_flag a)
       (filter (\<lambda>a. \<not> flag_indicator a \<and> \<not> generic_definition a) (args ob))
     @ filter is_flag
         (filter (\<lambda>a. \<not> flag_indicator a \<and> \<not> generic_definition a) (args ob))
   \<and> map arg_name (sorted_args \<lparr>name = ''f'', namespace = None, is_function = True,
        result = ''Bool'', args =
          [\<lparr>arg_name = ''flags'', arg_type = ''#'', is_flag = False, is_vector = False,
             is_generic = False, flag_indicator = True, generic_definition = False\<rparr>,
           \<lparr>arg_name = ''flagA'', arg_type = ''int'', is_flag = True, is_vector = False,
             is_generic = False, flag_indicator = False, generic_definition = False\<rparr>,
           \<lparr>arg_name = ''plain1'', arg_type = ''int'', is_flag = False, is_vector = False,
             is_generic = False, flag_indicator = False, generic_definition = False\<rparr>,
           \<lparr>arg_name = ''plain2'', arg_type = ''int'', is_flag = False, is_vector = False,
             is_generic = False, flag_indicator = False, generic_definition = False\<rparr>,
           \<lparr>arg_name = ''flagB'', arg_type = ''int'', is_flag = True, is_vector = False,
             is_generic = False, flag_indicator = False, generic_definition = False\<rparr>]\<rparr>)
     = [''plain1'', ''plain2'', ''flagA'', ''flagB'']"
  by (simp add: sorted_args_def sort_key_bool)

section \<open>The sentences of a type's page\<close>

lemma str_nat_2: "str_nat 2 = ''2''"
  by code_simp

lemma str_nat_3: "str_nat 3 = ''3''"
  by code_simp

lemma of_char_digit: "d < 10 \<Longrightarrow> (of_char (char_of (48 + d)) :: nat) = 48 + d" for d :: nat
proof -
  assume d: "d < 10"
  have "(of_char (char_of (48 + d)) :: nat) = (48 + d) mod 256" by (rule of_char_of)
  also from d have "\<dots> = 48 + d" by (intro mod_less) arith
  finally show ?thesis .
qed

lemma decimal_snoc: "decimal (s @ [c]) = 10 * decimal s + digit_value c"
  by (simp add: decimal_def)

lemma decimal_str_nat: "decimal (str_nat n) = n"
proof (induction n rule: str_nat.induct)
  case (1 n)
  show ?case
  proof (cases "n < 10")
    case True
    then show ?thesis
      by (simp add: str_nat.simps [of n] decimal_def digit_value_def of_char_digit)
  next
    case False
    have m: "n mod 10 < 10" by simp
    from False 1 have "decimal (str_nat (n div 10)) = n div 10" by simp
    with False show ?thesis
      by (simp add: str_nat.simps [of n] decimal_snoc digit_value_def of_char_digit [OF m])
  qed
qed

lemma is_digit_char_of: "d < 10 \<Longrightarrow> is_digit (char_of (48 + d))" for d :: nat
  by (simp add: is_digit_def of_char_digit)

lemma digits_str_nat: "list_all is_digit (str_nat n)"
proof (induction n rule: str_nat.induct)
  case (1 n)
  show ?case
  proof (cases "n < 10")
    case True
    then show ?thesis
      by (simp add: str_nat.simps [of n] is_digit_char_of)
  next
    case False
    have m: "n mod 10 < 10" by simp
    from False 1 have "list_all is_digit (str_nat (n div 10))" by simp
    with False show ?thesis
      by (simp add: str_nat.simps [of n] is_digit_char_of [OF m])
  qed
qed

lemma str_nat_nonempty: "str_nat n \<noteq> []"
  by (cases "n < 10") (simp_all add: str_nat.simps [of n])

lemma no_leading_zero: "0 < n \<Longrightarrow> hd (str_nat n) \<noteq> CHR ''0''"
proof (induction n rule: str_nat.induct)
  case (1 n)
  show ?case
  proof (cases "n < 10")
    case True
    have "char_of (48 + n) \<noteq> CHR ''0''"
    proof
      assume "char_of (48 + n) = CHR ''0''"
      then have "(of_char (char_of (48 + n)) :: nat) = of_char (CHR ''0'')"
        by (rule arg_cong)
      with True 1(2) show False by (simp add: of_char_digit)
    qed
    with True show ?thesis by (simp add: str_nat.simps [of n])
  next
    case False
    then have "0 < n div 10" by simp
    with False 1(1) have "hd (str_nat (n div 10)) \<noteq> CHR ''0''" by simp
    with False show ?thesis
      by (simp add: str_nat.simps [of n] str_nat_nonempty)
  qed
qed

lemma str_nat_0: "str_nat 0 = ''0''"
  by code_simp

lemma str_nat_12: "str_nat 12 = ''12''"
  by code_simp

lemma str_nat_10: "str_nat 10 = ''10''"
  by code_simp

lemma str_nat_100: "str_nat 100 = ''100''"
  by code_simp

text \<open>
  C7. The sentence under "Available constructors" is chosen by the number of
  constructors: none, \<^verbatim>\<open>This type has no constructors available.\<close>; one,
  \<^verbatim>\<open>This type has one constructor available.\<close>; more, \<^verbatim>\<open>This type has N constructors
  available.\<close> with the number in decimal digits, so for three
  \<^verbatim>\<open>This type has 3 constructors available.\<close> The sentence under "Methods returning this
  type" is chosen in the same way among \<^verbatim>\<open>No method returns this type.\<close>,
  \<^verbatim>\<open>Only the following method returns this type.\<close> and \<^verbatim>\<open>The following N methods return
  this type as a result.\<close>

  The number written is the count itself, for every count: its string is not empty, is
  made of the digits \<^verbatim>\<open>0\<close> to \<^verbatim>\<open>9\<close>, does not start with \<^verbatim>\<open>0\<close> unless the count is zero,
  and read as a decimal numeral it is the count. So twelve constructors give
  \<^verbatim>\<open>This type has 12 constructors available.\<close> and ten methods
  \<^verbatim>\<open>The following 10 methods return this type as a result.\<close>
\<close>

theorem count_sentences:
  assumes "length c1 = 1" and "1 < length cs" and "length c3 = 3"
    and "length f1 = 1" and "1 < length fs"
  shows "constructors_text [] = ''This type has no constructors available.''
    \<and> constructors_text c1 = ''This type has one constructor available.''
    \<and> constructors_text cs
        = ''This type has '' @ str_nat (length cs) @ '' constructors available.''
    \<and> constructors_text c3 = ''This type has 3 constructors available.''
    \<and> functions_text [] = ''No method returns this type.''
    \<and> functions_text f1 = ''Only the following method returns this type.''
    \<and> functions_text fs
        = ''The following '' @ str_nat (length fs) @ '' methods return this type as a result.''
    \<and> decimal (str_nat n) = n
    \<and> list_all is_digit (str_nat n)
    \<and> str_nat n \<noteq> []
    \<and> (0 < n \<longrightarrow> hd (str_nat n) \<noteq> CHR ''0'')
    \<and> is_digit c = (c \<in> set ''0123456789'')
    \<and> map digit_value ''0123456789'' = [0, 1, 2, 3, 4, 5, 6, 7, 8, 9]
    \<and> str_nat 0 = ''0'' \<and> str_nat 10 = ''10'' \<and> str_nat 12 = ''12''
    \<and> str_nat 100 = ''100''
    \<and> constructors_text (replicate 12 ob) = ''This type has 12 constructors available.''
    \<and> functions_text (replicate 3 ob) = ''The following 3 methods return this type as a result.''
    \<and> functions_text (replicate 10 ob)
        = ''The following 10 methods return this type as a result.''"
proof -
  from assms have ne: "c1 \<noteq> []" "cs \<noteq> []" "c3 \<noteq> []" "f1 \<noteq> []" "fs \<noteq> []" by auto
  from assms ne str_nat_3 have old:
    "constructors_text [] = ''This type has no constructors available.''
    \<and> constructors_text c1 = ''This type has one constructor available.''
    \<and> constructors_text cs
        = ''This type has '' @ str_nat (length cs) @ '' constructors available.''
    \<and> constructors_text c3 = ''This type has 3 constructors available.''
    \<and> functions_text [] = ''No method returns this type.''
    \<and> functions_text f1 = ''Only the following method returns this type.''
    \<and> functions_text fs
        = ''The following '' @ str_nat (length fs) @ '' methods return this type as a result.''"
    by (simp add: constructors_text_def functions_text_def)
  have z: "0 < n \<longrightarrow> hd (str_nat n) \<noteq> CHR ''0''"
    using no_leading_zero [of n] by blast
  have v: "map digit_value ''0123456789'' = [0, 1, 2, 3, 4, 5, 6, 7, 8, 9]"
    by (simp add: digit_value_def)
  have a: "constructors_text (replicate 12 ob) = ''This type has 12 constructors available.''"
    by (simp add: constructors_text_def str_nat_12)
  have b: "functions_text (replicate 3 ob)
      = ''The following 3 methods return this type as a result.''"
    by (simp add: functions_text_def str_nat_3)
  have c: "functions_text (replicate 10 ob)
      = ''The following 10 methods return this type as a result.''"
    by (simp add: functions_text_def str_nat_10)
  note decimal_str_nat [of n] digits_str_nat [of n] str_nat_nonempty [of n]
    is_digit_set [of c] str_nat_0 str_nat_10 str_nat_12 str_nat_100
  with old z v a b c show ?thesis by (intro conjI) blast+
qed

theorem count_sentences_witness:
  "length [resolved_peer] = 1 \<and> 1 < length [resolved_peer, resolved_peer]
   \<and> length [resolved_peer, resolved_peer, resolved_peer] = 3
   \<and> length [resolve_username] = 1 \<and> 1 < length [resolve_username, resolve_username]
   \<and> constructors_text [resolved_peer] = ''This type has one constructor available.''
   \<and> constructors_text [resolved_peer, resolved_peer]
       = ''This type has 2 constructors available.''
   \<and> constructors_text [resolved_peer, resolved_peer, resolved_peer]
       = ''This type has 3 constructors available.''
   \<and> functions_text [resolve_username] = ''Only the following method returns this type.''
   \<and> functions_text [resolve_username, resolve_username]
       = ''The following 2 methods return this type as a result.''
   \<and> (0 :: nat) < 12 \<and> hd (str_nat 12) \<noteq> CHR ''0'' \<and> decimal (str_nat 12) = 12"
proof -
  have h: "length [resolved_peer] = 1 \<and> 1 < length [resolved_peer, resolved_peer]
      \<and> length [resolved_peer, resolved_peer, resolved_peer] = 3
      \<and> length [resolve_username] = 1 \<and> 1 < length [resolve_username, resolve_username]
      \<and> (0 :: nat) < 12"
    by simp
  have h1: "length [resolved_peer] = 1" by simp
  have h2: "1 < length [resolved_peer, resolved_peer]" by simp
  have h3: "length [resolved_peer, resolved_peer, resolved_peer] = 3" by simp
  have h4: "length [resolve_username] = 1" by simp
  have h5: "1 < length [resolve_username, resolve_username]" by simp
  have h6: "(0 :: nat) < 12" by simp
  note t = count_sentences [OF h1 h2 h3 h4 h5, of 12 "CHR ''1''" resolved_peer]
  from t h6 have a: "constructors_text [resolved_peer] = ''This type has one constructor available.''
      \<and> constructors_text [resolved_peer, resolved_peer, resolved_peer]
          = ''This type has 3 constructors available.''
      \<and> functions_text [resolve_username] = ''Only the following method returns this type.''
      \<and> hd (str_nat 12) \<noteq> CHR ''0'' \<and> decimal (str_nat 12) = 12"
    by blast
  from t have "constructors_text [resolved_peer, resolved_peer]
      = ''This type has '' @ str_nat (length [resolved_peer, resolved_peer])
          @ '' constructors available.''"
    by blast
  then have b: "constructors_text [resolved_peer, resolved_peer]
      = ''This type has 2 constructors available.''"
    by (simp add: numeral_2_eq_2 [symmetric] str_nat_2)
  from t have "functions_text [resolve_username, resolve_username]
      = ''The following '' @ str_nat (length [resolve_username, resolve_username])
          @ '' methods return this type as a result.''"
    by blast
  then have c: "functions_text [resolve_username, resolve_username]
      = ''The following 2 methods return this type as a result.''"
    by (simp add: numeral_2_eq_2 [symmetric] str_nat_2)
  from h a b c show ?thesis by blast
qed

section \<open>The index of types and functions\<close>

lemma map_of_dict_add:
  "map_of (dict_add d k v) k' =
     (if k' = k then Some (dict_get d k @ [v]) else map_of d k')"
  by (induction d k v rule: dict_add.induct) (auto simp: dict_get_def)

lemma dict_get_dict_add:
  "dict_get (dict_add d k v) k' = (if k' = k then dict_get d k @ [v] else dict_get d k')"
  by (simp add: dict_get_def map_of_dict_add)

lemma dom_dict_add: "fst ` set (dict_add d k v) = insert k (fst ` set d)"
  by (induction d k v rule: dict_add.induct) auto

lemma distinct_dict_add: "distinct (map fst d) \<Longrightarrow> distinct (map fst (dict_add d k v))"
  by (induction d k v rule: dict_add.induct) (auto simp: dom_dict_add)

lemma nonempty_dict_add:
  "\<forall>e \<in> set d. snd e \<noteq> [] \<Longrightarrow> \<forall>e \<in> set (dict_add d k v). snd e \<noteq> []"
  by (induction d k v rule: dict_add.induct) auto

lemma foldl_index_types:
  "dict_get (fst (foldl index_step d obs)) k
   = dict_get (fst d) k @ filter (\<lambda>ob. \<not> is_function ob \<and> result ob = k) obs"
  by (induction obs arbitrary: d) (auto simp: index_step_def dict_get_dict_add)

lemma foldl_index_functions:
  "dict_get (snd (foldl index_step d obs)) k
   = dict_get (snd d) k @ filter (\<lambda>ob. is_function ob \<and> result ob = k) obs"
  by (induction obs arbitrary: d) (auto simp: index_step_def dict_get_dict_add)

lemma foldl_index_keys_types:
  "fst ` set (fst (foldl index_step d obs))
   = fst ` set (fst d) \<union> result ` {ob \<in> set obs. \<not> is_function ob}"
  by (induction obs arbitrary: d) (auto simp: index_step_def dom_dict_add)

lemma foldl_index_keys_functions:
  "fst ` set (snd (foldl index_step d obs))
   = fst ` set (snd d) \<union> result ` {ob \<in> set obs. is_function ob}"
  by (induction obs arbitrary: d) (auto simp: index_step_def dom_dict_add)

lemma foldl_index_nonempty:
  "\<forall>e \<in> set (fst d). snd e \<noteq> [] \<Longrightarrow> \<forall>e \<in> set (snd d). snd e \<noteq> [] \<Longrightarrow>
   (\<forall>e \<in> set (fst (foldl index_step d obs)). snd e \<noteq> [])
   \<and> (\<forall>e \<in> set (snd (foldl index_step d obs)). snd e \<noteq> [])"
proof (induction obs arbitrary: d)
  case Nil
  then show ?case by simp
next
  case (Cons ob obs)
  show ?case
    unfolding foldl_Cons
  proof (rule Cons.IH)
    show "\<forall>e \<in> set (fst (index_step d ob)). snd e \<noteq> []"
      using Cons.prems nonempty_dict_add [of "fst d"] by (simp add: index_step_def)
    show "\<forall>e \<in> set (snd (index_step d ob)). snd e \<noteq> []"
      using Cons.prems nonempty_dict_add [of "snd d"] by (simp add: index_step_def)
  qed
qed

lemma foldl_index_distinct:
  "distinct (map fst (fst d)) \<Longrightarrow> distinct (map fst (snd d)) \<Longrightarrow>
   distinct (map fst (fst (foldl index_step d obs)))
   \<and> distinct (map fst (snd (foldl index_step d obs)))"
proof (induction obs arbitrary: d)
  case Nil
  then show ?case by simp
next
  case (Cons ob obs)
  show ?case
    unfolding foldl_Cons
  proof (rule Cons.IH)
    show "distinct (map fst (fst (index_step d ob)))"
      using Cons.prems by (simp add: index_step_def distinct_dict_add)
    show "distinct (map fst (snd (index_step d ob)))"
      using Cons.prems by (simp add: index_step_def distinct_dict_add)
  qed
qed

lemma tltypes_nonempty: "e \<in> set (tltypes obs) \<Longrightarrow> snd e \<noteq> []"
  using foldl_index_nonempty [of "([], [])" obs]
  by (simp add: tltypes_def build_index_def)

text \<open>
  C2, as the code has it. Both dictionaries are keyed by the result of the object:
  the list stored in \<^verbatim>\<open>tltypes\<close> under a key is the objects that are no functions and
  have that result, in the order of the scheme, and the list stored in
  \<^verbatim>\<open>tlfunctions\<close> is the functions with that result. The keys are exactly the results
  that occur, each once.
\<close>

theorem index_keyed_by_result:
  "dict_get (tltypes obs) k = filter (\<lambda>ob. \<not> is_function ob \<and> result ob = k) obs
   \<and> dict_get (tlfunctions obs) k = filter (\<lambda>ob. is_function ob \<and> result ob = k) obs
   \<and> fst ` set (tltypes obs) = result ` {ob \<in> set obs. \<not> is_function ob}
   \<and> fst ` set (tlfunctions obs) = result ` {ob \<in> set obs. is_function ob}
   \<and> distinct (map fst (tltypes obs)) \<and> distinct (map fst (tlfunctions obs))"
  using foldl_index_types [of "([], [])" obs k] foldl_index_functions [of "([], [])" obs k]
    foldl_index_keys_types [of "([], [])" obs] foldl_index_keys_functions [of "([], [])" obs]
    foldl_index_distinct [of "([], [])" obs]
  by (simp add: tltypes_def tlfunctions_def build_index_def dict_get_def)

text \<open>
  The claim C2 as stated fails: the constructor \<^verbatim>\<open>resolved_peer\<close> is not stored under
  its own name but under its result \<^verbatim>\<open>ResolvedPeer\<close>.
\<close>

theorem index_by_name_counterexample:
  "map_of (tltypes [resolve_username, resolved_peer]) (name resolved_peer) = None
   \<and> map_of (tltypes [resolve_username, resolved_peer]) (result resolved_peer)
      = Some [resolved_peer]"
  by (simp add: tltypes_def build_index_def index_step_def resolve_username_def
      resolved_peer_def)

section \<open>Every type page has a constructor\<close>

lemma str_nat_digit: "str_nat n \<noteq> [] \<and> hd (str_nat n) \<noteq> CHR ''n''"
proof (induction n rule: str_nat.induct)
  case (1 n)
  show ?case
  proof (cases "n < 10")
    case True
    have "char_of (48 + n) \<noteq> CHR ''n''"
    proof
      assume "char_of (48 + n) = CHR ''n''"
      then have "(of_char (char_of (48 + n)) :: nat) = of_char (CHR ''n'')"
        by (rule arg_cong)
      then have "(48 + n) mod 256 = 110" by (simp add: of_char_of)
      moreover have "(48 + n) mod 256 = 48 + n" using True by (intro mod_less) arith
      ultimately show False using True by arith
    qed
    with True show ?thesis by (simp add: str_nat.simps [of n])
  next
    case False
    with 1 show ?thesis by (simp add: str_nat.simps [of n])
  qed
qed

lemma constructors_text_some:
  "cs \<noteq> [] \<Longrightarrow> constructors_text cs \<noteq> ''This type has no constructors available.''"
  using str_nat_digit [of "length cs"]
  by (cases "str_nat (length cs)") (auto simp: constructors_text_def)

text \<open>
  C9. Every list stored in \<^verbatim>\<open>tltypes\<close> has at least one element, so every type page
  lists at least one constructor and its sentence is never
  \<^verbatim>\<open>This type has no constructors available.\<close>
\<close>

theorem type_pages_have_constructors:
  assumes "e \<in> set (tltypes obs)" and "p \<in> set (type_pages obs)"
  shows "1 \<le> length (snd e)
    \<and> 1 \<le> length (constructor_rows p)
    \<and> constructors_sentence p = constructors_text (constructor_rows p)
    \<and> constructors_sentence p \<noteq> ''This type has no constructors available.''"
proof -
  from assms(1) have "snd e \<noteq> []" by (rule tltypes_nonempty)
  then have a: "1 \<le> length (snd e)" by (cases "snd e") simp_all
  from assms(2) obtain t cs where tc: "(t, cs) \<in> set (tltypes obs)"
    and p: "constructor_rows p = cs" "constructors_sentence p = constructors_text cs"
    by (auto simp: type_pages_def Let_def)
  from tltypes_nonempty [OF tc] have ne: "cs \<noteq> []" by simp
  then have "1 \<le> length cs" by (cases cs) simp_all
  with a p ne constructors_text_some [of cs] show ?thesis by simp
qed

theorem type_pages_have_constructors_witness:
  "(''ResolvedPeer'', [resolved_peer]) \<in> set (tltypes [resolve_username, resolved_peer])
   \<and> resolved_peer_page \<in> set (type_pages [resolve_username, resolved_peer])
   \<and> 1 \<le> length (constructor_rows resolved_peer_page)
   \<and> constructors_sentence resolved_peer_page \<noteq> ''This type has no constructors available.''"
proof -
  have t: "tltypes [resolve_username, resolved_peer] = [(''ResolvedPeer'', [resolved_peer])]"
    by (simp add: tltypes_def build_index_def index_step_def resolve_username_def
        resolved_peer_def)
  have f: "tlfunctions [resolve_username, resolved_peer]
           = [(''ResolvedPeer'', [resolve_username])]"
    by (simp add: tlfunctions_def build_index_def index_step_def resolve_username_def
        resolved_peer_def)
  have e: "(''ResolvedPeer'', [resolved_peer]) \<in> set (tltypes [resolve_username, resolved_peer])"
    by (simp add: t)
  have p: "resolved_peer_page \<in> set (type_pages [resolve_username, resolved_peer])"
    by (simp add: type_pages_def t f dict_get_def resolved_peer_page_def
        constructors_text_def functions_text_def)
  from type_pages_have_constructors [OF e p] e p show ?thesis by blast
qed

section \<open>Type keys with too many dots\<close>

lemma length_split: "length (split c s) = Suc (count_list s c)"
  by (induction s) (auto split: list.splits simp: split_nonempty)

lemma lower_char_dot: "(lower_char c = CHR ''.'') = (c = CHR ''.'')"
proof (cases "is_upper c")
  case True
  have "of_char (char_of ((of_char c :: nat) + 32)) = ((of_char c :: nat) + 32) mod 256"
    by (rule of_char_of)
  with True have "(of_char (lower_char c) :: nat) \<noteq> of_char (CHR ''.'')"
    by (simp add: lower_char_def is_upper_def)
  moreover from True have "c \<noteq> CHR ''.''" by (auto simp: is_upper_def)
  ultimately show ?thesis by auto
next
  case False
  then show ?thesis by (simp add: lower_char_def)
qed

lemma dot_lower_char: "(CHR ''.'' = lower_char c) = (c = CHR ''.'')"
  using lower_char_dot [of c] by auto

lemma dot_lower: "(CHR ''.'' \<in> set (lower t)) = (CHR ''.'' \<in> set t)"
  by (induction t) (auto simp: lower_def lower_char_dot dot_lower_char)

lemma core_no_dot: "lower t \<in> set core_types \<Longrightarrow> CHR ''.'' \<notin> set t"
proof -
  assume "lower t \<in> set core_types"
  then have "CHR ''.'' \<notin> set (lower t)" by (auto simp: core_types_def)
  then show ?thesis by (simp add: dot_lower)
qed

lemma relpath_defined: "path \<noteq> [] \<Longrightarrow> \<exists>p. relpath fs path start = Inr p"
  by (simp add: relpath_def Let_def split: list.splits)

lemma get_relative_path_defined:
  "path \<noteq> [] \<Longrightarrow> \<exists>p. get_relative_path fs path rel = Inr p"
  by (simp add: get_relative_path_def relpath_defined)

lemma count_list_0: "(count_list t c = 0) = (c \<notin> set t)"
  by (induction t) auto

lemma list_of_length_2: "length xs = 2 \<Longrightarrow> \<exists>a b. xs = [a, b]"
  by (cases xs; simp; cases "tl xs"; simp) 

lemma list_of_length_3: "3 \<le> length xs \<Longrightarrow> \<exists>a b c r. xs = a # b # c # r"
  by (cases xs; simp; cases "tl xs"; simp; cases "tl (tl xs)"; simp)

lemma type_path_dots:
  assumes "2 \<le> count_list t (CHR ''.'')"
  shows "type_path t = Inl ValueError"
proof -
  from assms have "count_list t (CHR ''.'') \<noteq> 0" by arith
  then have dot: "CHR ''.'' \<in> set t" by (simp add: count_list_0)
  then have nc: "lower t \<notin> set core_types" using core_no_dot by blast
  from assms have "3 \<le> length (split (CHR ''.'') t)" by (simp add: length_split)
  then obtain a b c r where "split (CHR ''.'') t = a # b # c # r"
    using list_of_length_3 by blast
  with dot nc show ?thesis by (simp add: type_path_def)
qed

lemma type_path_defined:
  assumes "count_list t (CHR ''.'') \<le> 1"
  shows "\<exists>p. type_path t = Inr p \<and> p \<noteq> []"
proof (cases "CHR ''.'' \<in> set t")
  case True
  then have "count_list t (CHR ''.'') \<noteq> 0" by (simp add: count_list_0)
  with assms have "length (split (CHR ''.'') t) = 2" by (simp add: length_split)
  then obtain a b where "split (CHR ''.'') t = [a, b]"
    using list_of_length_2 by blast
  then show ?thesis by (simp add: type_path_def)
next
  case False
  then show ?thesis by (simp add: type_path_def)
qed

text \<open>
  C10. A type key outside the core types with two or more dots makes
  \<^verbatim>\<open>get_path_for_type\<close> raise \<^verbatim>\<open>ValueError\<close>, whatever \<^verbatim>\<open>relative_to\<close> is: the split has
  three or more pieces and cannot be unpacked into two. A key with at most one dot
  never raises: the function returns a path.
\<close>

theorem path_for_type_dots:
  assumes "lower t \<notin> set core_types" and "2 \<le> count_list t (CHR ''.'')"
    and "count_list t' (CHR ''.'') \<le> 1"
  shows "get_path_for_type fs t relative_to = Inl ValueError
    \<and> (\<exists>p. get_path_for_type fs t' relative_to = Inr p)"
proof -
  from assms(2) have "get_path_for_type fs t relative_to = Inl ValueError"
    by (simp add: get_path_for_type_def type_path_dots)
  moreover from type_path_defined [OF assms(3)]
  have "\<exists>p. get_path_for_type fs t' relative_to = Inr p"
    by (auto simp: get_path_for_type_def get_relative_path_defined)
  ultimately show ?thesis by blast
qed

theorem path_for_type_dots_witness:
  "lower ''a.ns.Foo'' \<notin> set core_types \<and> 2 \<le> count_list ''a.ns.Foo'' (CHR ''.'')
   \<and> count_list ''ns.Foo'' (CHR ''.'') \<le> 1
   \<and> get_path_for_type fresh_fs ''a.ns.Foo'' ''.'' = Inl ValueError
   \<and> get_path_for_type fresh_fs ''ns.Foo'' ''.'' = Inr ''types/ns/foo.html''"
proof -
  have a: "lower ''a.ns.Foo'' \<notin> set core_types" by code_simp
  have b: "2 \<le> count_list ''a.ns.Foo'' (CHR ''.'')" by simp
  have c: "count_list ''ns.Foo'' (CHR ''.'') \<le> 1" by simp
  have d: "get_path_for_type fresh_fs ''ns.Foo'' ''.'' = Inr ''types/ns/foo.html''"
    by code_simp
  from path_for_type_dots [OF a b c, of fresh_fs "''.''"] a b c d show ?thesis by blast
qed

section \<open>Components of paths\<close>

lemma split_append: "split c (a @ c # b) = split c a @ split c b"
  by (induction a) (auto split: list.splits simp: split_nonempty)

lemma split_no_sep: "c \<notin> set s \<Longrightarrow> split c s = [s]"
  by (induction s) auto

lemma split_pieces: "w \<in> set (split c s) \<Longrightarrow> c \<notin> set w"
  by (induction s arbitrary: w) (auto split: list.splits if_splits)

lemma comps_append: "comps (a @ CHR ''/'' # b) = comps a @ comps b"
  by (simp add: comps_def split_append)

lemma comps_Nil: "comps [] = []"
  by (simp add: comps_def)

lemma comps_slash: "comps (CHR ''/'' # b) = comps b"
  using comps_append [of "[]" b] by (simp add: comps_Nil)

lemma comps_normal: "normal c \<Longrightarrow> comps c = [c]"
  by (simp add: comps_def normal_def split_no_sep)

lemma comps_slashes: "comps (replicate k (CHR ''/'') @ s) = comps s"
  by (induction k) (simp_all add: comps_slash)




lemma comps_sep_join: "\<forall>c \<in> set cs. normal c \<Longrightarrow> comps (sep_join cs) = cs"
proof (induction cs rule: sep_join.induct)
  case 1
  show ?case by (simp add: comps_Nil)
next
  case (2 x)
  then show ?case by (simp add: comps_normal)
next
  case (3 x y zs)
  then show ?case by (simp add: comps_append comps_normal)
qed

lemma norm_step_abs: "0 < i \<Longrightarrow> norm_step i = norm_step 1"
  by (intro ext) (simp add: norm_step_def)

lemma norm_step_empty: "norm_step i acc [] = acc"
  by (simp add: norm_step_def)

lemma foldl_norm_filter:
  "foldl (norm_step i) acc (filter (\<lambda>x. x \<noteq> []) cs) = foldl (norm_step i) acc cs"
  by (induction cs arbitrary: acc) (simp_all add: norm_step_empty)

lemma norm_step_normal: "normal c \<Longrightarrow> norm_step i acc c = acc @ [c]"
  by (simp add: norm_step_def normal_def)

lemma foldl_norm_normal:
  "\<forall>c \<in> set cs. normal c \<Longrightarrow> foldl (norm_step i) acc cs = acc @ cs"
  by (induction cs arbitrary: acc) (simp_all add: norm_step_normal)

lemma abs_norm_append_normal:
  "\<forall>c \<in> set cs. normal c \<Longrightarrow> abs_norm (bs @ cs) = abs_norm bs @ cs"
  by (simp add: abs_norm_def foldl_norm_normal)

lemma norm_step_keeps_normal:
  assumes "\<forall>a \<in> set acc. normal a" and "CHR ''/'' \<notin> set c"
  shows "\<forall>a \<in> set (norm_step 1 acc c). normal a"
proof (cases "c = [] \<or> c = ''.''")
  case True
  with assms show ?thesis by (auto simp: norm_step_def)
next
  case False
  show ?thesis
  proof (cases "c = ''..''")
    case True
    from assms(1) have "acc \<noteq> [] \<Longrightarrow> last acc \<noteq> ''..''"
      using last_in_set [of acc] by (auto simp: normal_def)
    with True assms(1) show ?thesis
      by (auto simp: norm_step_def dest: in_set_butlastD)
  next
    case no: False
    with False assms show ?thesis by (auto simp: norm_step_def normal_def)
  qed
qed

lemma foldl_norm_keeps_normal:
  "\<forall>a \<in> set acc. normal a \<Longrightarrow> \<forall>c \<in> set cs. CHR ''/'' \<notin> set c \<Longrightarrow>
   \<forall>a \<in> set (foldl (norm_step 1) acc cs). normal a"
proof (induction cs arbitrary: acc)
  case Nil
  then show ?case by simp
next
  case (Cons c cs)
  from Cons.prems have "\<forall>a \<in> set (norm_step 1 acc c). normal a"
    by (intro norm_step_keeps_normal) simp_all
  with Cons.prems show ?case by (simp add: Cons.IH)
qed

lemma abs_norm_normal: "\<forall>a \<in> set (abs_norm (comps s)). normal a"
  unfolding abs_norm_def comps_def
  by (rule foldl_norm_keeps_normal) (auto dest: split_pieces)

lemma norm_comps_abs:
  assumes "startswith s ''/''"
  shows "norm_comps s = abs_norm (comps s)"
proof -
  from assms have "0 < initial_slashes s" by (simp add: initial_slashes_def)
  then have "norm_step (initial_slashes s) = norm_step 1" by (rule norm_step_abs)
  then show ?thesis
    by (simp add: norm_comps_def abs_norm_def comps_def foldl_norm_filter)
qed

lemma path_list_normpath:
  assumes "startswith s ''/''"
  shows "filter (\<lambda>x. x \<noteq> []) (split (CHR ''/'') (normpath s)) = abs_norm (comps s)"
proof -
  from assms have pos: "0 < initial_slashes s" and ne: "s \<noteq> []"
    by (auto simp: initial_slashes_def startswith_def)
  let ?cs = "abs_norm (comps s)"
  from pos have "replicate (initial_slashes s) (CHR ''/'') @ sep_join (norm_comps s) \<noteq> []"
    by simp
  with ne have "normpath s = replicate (initial_slashes s) (CHR ''/'') @ sep_join ?cs"
    by (simp add: normpath_def Let_def norm_comps_abs [OF assms])
  then have "comps (normpath s) = comps (sep_join ?cs)" by (simp add: comps_slashes)
  also have "\<dots> = ?cs" by (rule comps_sep_join) (rule abs_norm_normal)
  finally show ?thesis by (simp add: comps_def)
qed

lemma startswith_slash: "startswith s ''/'' = (s \<noteq> [] \<and> hd s = CHR ''/'')"
  by (cases s) (simp_all add: startswith_def)

lemma endswith_slash: "endswith s ''/'' = (s \<noteq> [] \<and> last s = CHR ''/'')"
proof (cases s rule: rev_cases)
  case Nil
  then show ?thesis by (simp add: endswith_def)
next
  case (snoc ys y)
  then show ?thesis by (simp add: endswith_def)
qed

lemma comps_join_cwd:
  assumes "startswith cwd ''/''" and "\<not> startswith p ''/''"
  shows "startswith (join cwd [p]) ''/'' \<and> comps (join cwd [p]) = comps cwd @ comps p"
proof (cases "endswith cwd ''/''")
  case True
  then obtain c where c: "cwd = c @ ''/''"
    by (cases cwd rule: rev_cases) (auto simp: endswith_slash)
  have "comps cwd = comps c" using comps_append [of c "[]"] by (simp add: c comps_Nil)
  moreover have "comps (cwd @ p) = comps c @ comps p" using comps_append [of c p] by (simp add: c)
  ultimately show ?thesis using assms True
    by (auto simp: join_def join_step_def startswith_slash)
next
  case False
  with assms show ?thesis
    by (auto simp: join_def join_step_def startswith_slash comps_append)
qed

lemma path_list_eq:
  assumes "startswith (getcwd fs) ''/''"
  shows "path_list fs p = abs_norm (base fs p @ comps p)"
proof (cases "startswith p ''/''")
  case True
  then show ?thesis by (simp add: path_list_def abspath_def path_list_normpath base_def)
next
  case False
  from comps_join_cwd [OF assms False] False show ?thesis
    by (simp add: path_list_def abspath_def path_list_normpath base_def)
qed

lemma commonprefix_append: "commonprefix xs (xs @ ys) = xs"
  by (induction xs) simp_all

lemma join_step_normal:
  "acc \<noteq> [] \<Longrightarrow> last acc \<noteq> CHR ''/'' \<Longrightarrow> normal c \<Longrightarrow>
   join_step acc c = acc @ CHR ''/'' # c"
  by (cases c) (auto simp: join_step_def startswith_slash endswith_slash normal_def)

lemma normal_last: "normal c \<Longrightarrow> c \<noteq> [] \<and> last c \<noteq> CHR ''/''"
  unfolding normal_def by (metis last_in_set)

lemma foldl_join_normal:
  "acc \<noteq> [] \<Longrightarrow> last acc \<noteq> CHR ''/'' \<Longrightarrow> \<forall>c \<in> set cs. normal c \<Longrightarrow>
   foldl join_step acc cs = acc @ concat (map (\<lambda>c. CHR ''/'' # c) cs)"
proof (induction cs arbitrary: acc)
  case Nil
  show ?case by simp
next
  case (Cons c cs)
  from Cons.prems have c: "normal c" by simp
  with Cons.prems have step: "join_step acc c = acc @ CHR ''/'' # c"
    by (intro join_step_normal) simp_all
  from normal_last [OF c] have "acc @ CHR ''/'' # c \<noteq> []" "last (acc @ CHR ''/'' # c) \<noteq> CHR ''/''"
    by simp_all
  with Cons.prems have "foldl join_step (acc @ CHR ''/'' # c) cs
      = (acc @ CHR ''/'' # c) @ concat (map (\<lambda>c. CHR ''/'' # c) cs)"
    by (intro Cons.IH) simp_all
  with step show ?case by simp
qed

lemma sep_join_concat: "sep_join (c # cs) = c @ concat (map (\<lambda>c. CHR ''/'' # c) cs)"
  by (induction cs arbitrary: c) simp_all

lemma join_normal: "\<forall>c \<in> set (a # p). normal c \<Longrightarrow> join a p = sep_join (a # p)"
  using foldl_join_normal [of a p] normal_last [of a]
  by (simp add: join_def sep_join_concat)

lemma relpath_below:
  assumes "path \<noteq> []" and "path_list fs path = path_list fs start @ cs"
    and "cs \<noteq> []" and "\<forall>c \<in> set cs. normal c"
  shows "relpath fs path start = Inr (sep_join cs)"
proof -
  from assms(3) obtain a p where cs: "cs = a # p" by (cases cs) auto
  with assms(4) have "join a p = sep_join (a # p)" by (intro join_normal) simp
  with assms(1,2) cs show ?thesis
    by (simp add: relpath_def Let_def commonprefix_append)
qed

lemma path_list_dot:
  assumes "startswith (getcwd fs) ''/''"
  shows "path_list fs ''.'' = abs_norm (comps (getcwd fs))"
    and "path_list fs [] = abs_norm (comps (getcwd fs))"
proof -
  have "comps ''.'' = [''.'']" by (simp add: comps_def)
  then show "path_list fs ''.'' = abs_norm (comps (getcwd fs))"
    by (simp add: path_list_eq [OF assms] base_def startswith_def abs_norm_def norm_step_def)
  show "path_list fs [] = abs_norm (comps (getcwd fs))"
    by (simp add: path_list_eq [OF assms] base_def startswith_def comps_Nil)
qed

lemma dirname_dot: "dirname ''.'' = []"
  by (simp add: dirname_def)

lemma normal_hd: "normal a \<Longrightarrow> a \<noteq> [] \<and> hd a \<noteq> CHR ''/''"
  unfolding normal_def by (metis hd_in_set)

lemma sep_join_relative:
  assumes "normal a"
  shows "sep_join (a # p) \<noteq> [] \<and> \<not> startswith (sep_join (a # p)) ''/''"
proof -
  from normal_hd [OF assms] obtain x xs where a: "a = x # xs" and x: "x \<noteq> CHR ''/''"
    by (cases a) auto
  show ?thesis unfolding sep_join_concat startswith_slash a using x by simp
qed

lemma relative_to_dot:
  assumes cwd: "startswith (getcwd fs) ''/''"
    and cs: "cs \<noteq> []" "\<forall>c \<in> set cs. normal c"
  shows "get_relative_path fs (sep_join cs) ''.'' = Inr (sep_join cs)"
proof -
  let ?p = "sep_join cs"
  from cs obtain a p where ap: "cs = a # p" by (cases cs) auto
  with cs(2) have a: "normal a" by simp
  from sep_join_relative [OF a, of p] have ne: "?p \<noteq> []" and rel: "\<not> startswith ?p ''/''"
    unfolding ap by blast+
  have "comps ?p = cs" using cs(2) by (rule comps_sep_join)
  with rel have "path_list fs ?p = abs_norm (comps (getcwd fs) @ cs)"
    unfolding path_list_eq [OF cwd] base_def by simp
  also have "\<dots> = abs_norm (comps (getcwd fs)) @ cs"
    using cs(2) by (rule abs_norm_append_normal)
  finally have pl: "path_list fs ?p = abs_norm (comps (getcwd fs)) @ cs" .
  have 1: "relpath fs ?p ''.'' = Inr ?p"
  proof (rule relpath_below [OF ne _ cs])
    show "path_list fs ?p = path_list fs ''.'' @ cs"
      unfolding pl path_list_dot(1) [OF cwd] ..
  qed
  have 2: "relpath fs ?p [] = Inr ?p"
  proof (rule relpath_below [OF ne _ cs])
    show "path_list fs ?p = path_list fs [] @ cs"
      unfolding pl path_list_dot(2) [OF cwd] ..
  qed
  show ?thesis unfolding get_relative_path_def dirname_dot Let_def using 1 2 by simp
qed

lemma lower_char_lower: "is_upper c \<Longrightarrow> is_lower (lower_char c)"
proof -
  assume u: "is_upper c"
  define n :: nat where "n = of_char c"
  from u have n: "65 \<le> n" "n \<le> 90" by (simp_all add: is_upper_def n_def)
  have "(of_char (lower_char c) :: nat) = (n + 32) mod 256"
    using u by (simp add: lower_char_def n_def of_char_of)
  also from n have "\<dots> = n + 32" by (intro mod_less) arith
  finally have "97 \<le> (of_char (lower_char c) :: nat) \<and> (of_char (lower_char c) :: nat) \<le> 122"
    using n by arith
  then show ?thesis by (simp add: is_lower_def)
qed

lemma lower_char_other:
  assumes "\<not> is_lower d" and "\<not> is_upper d"
  shows "(lower_char c = d) = (c = d)"
proof (cases "is_upper c")
  case True
  with assms lower_char_lower [OF True] show ?thesis by auto
next
  case False
  then show ?thesis by (simp add: lower_char_def)
qed

lemma lower_char_slash: "(lower_char c = CHR ''/'') = (c = CHR ''/'')"
  by (rule lower_char_other) (simp_all add: is_lower_def is_upper_def)

lemma slash_lower: "(CHR ''/'' \<in> set (lower s)) = (CHR ''/'' \<in> set s)"
proof -
  have "(CHR ''/'' \<in> lower_char ` set s) = (CHR ''/'' \<in> set s)"
    using lower_char_slash by (metis (no_types, lifting) image_iff)
  then show ?thesis by (simp add: lower_def)
qed

lemma slash_remove: "(CHR ''/'' \<in> set (remove_char (CHR ''_'') s)) = (CHR ''/'' \<in> set s)"
  by (auto simp: remove_char_def)

lemma slash_file_name:
  "(CHR ''/'' \<in> set (get_file_name t False)) = (CHR ''/'' \<in> set (name_of t))"
proof -
  have "(CHR ''/'' \<in> set (get_file_name t False))
        = (CHR ''/'' \<in> set (remove_char (CHR ''_'') (get_file_name t False)))"
    by (simp add: slash_remove)
  also have "\<dots> = (CHR ''/'' \<in> set (lower (remove_char (CHR ''_'') (name_of t))))"
    by (simp only: file_name_letters)
  also have "\<dots> = (CHR ''/'' \<in> set (name_of t))"
    by (simp add: slash_lower slash_remove)
  finally show ?thesis .
qed

lemma file_name_html: "get_file_name t True = get_file_name t False @ ''.html''"
  by (simp add: get_file_name_def)

lemma normal_file_name:
  assumes "CHR ''/'' \<notin> set (name_of t)"
  shows "normal (get_file_name t True)"
proof -
  let ?f = "get_file_name t False"
  have "length (?f @ ''.html'') \<ge> 5" by simp
  then have "?f @ ''.html'' \<noteq> []" "?f @ ''.html'' \<noteq> ''.''" "?f @ ''.html'' \<noteq> ''..''"
    by auto
  moreover have "CHR ''/'' \<notin> set (?f @ ''.html'')"
    using assms by (simp add: slash_file_name)
  ultimately show ?thesis unfolding normal_def file_name_html by blast
qed








section \<open>A page linking to itself\<close>





section \<open>Core types\<close>

lemma core_normal:
  assumes "lower t \<in> set core_types"
  shows "normal (''index.html#'' @ lower t)"
  using assms by (auto simp: core_types_def normal_def)

text \<open>
  C1, as the code has it. For a type key whose lower-case form is a core type, the
  target is \<^verbatim>\<open>core/index.html#\<close> followed by the lower-case key, whatever
  \<^verbatim>\<open>relative_to\<close> is, and \<^verbatim>\<open>get_path_for_type\<close> returns this target made relative to
  \<^verbatim>\<open>relative_to\<close>; with the default \<^verbatim>\<open>relative_to='.'\<close>, in an absolute working directory,
  it returns the target itself.
\<close>

theorem core_type_path:
  assumes "lower t \<in> set core_types" and "startswith (getcwd fs) ''/''"
  shows "get_path_for_type fs t relative_to
           = get_relative_path fs (''core/index.html#'' @ lower t) relative_to
    \<and> get_path_for_type fs t ''.'' = Inr (''core/index.html#'' @ lower t)"
proof -
  have tp: "type_path t = Inr (''core/index.html#'' @ lower t)"
    using assms(1) by (simp add: type_path_def)
  have "normal ''core''" by (simp add: normal_def)
  with core_normal [OF assms(1)]
  have "\<forall>c \<in> set [''core'', ''index.html#'' @ lower t]. normal c" by simp
  then have "get_relative_path fs (sep_join [''core'', ''index.html#'' @ lower t]) ''.''
      = Inr (sep_join [''core'', ''index.html#'' @ lower t])"
    by (intro relative_to_dot [OF assms(2)]) simp_all
  then have "get_relative_path fs (''core/index.html#'' @ lower t) ''.''
      = Inr (''core/index.html#'' @ lower t)" by simp
  with tp show ?thesis by (simp add: get_path_for_type_def)
qed

theorem core_type_path_witness:
  "lower ''Int'' \<in> set core_types \<and> startswith (getcwd fresh_fs) ''/''
   \<and> get_path_for_type fresh_fs ''Int'' ''.'' = Inr ''core/index.html#int''"
proof -
  have a: "lower ''Int'' \<in> set core_types" by code_simp
  have b: "startswith (getcwd fresh_fs) ''/''" by code_simp
  have c: "lower ''Int'' = ''int''" by code_simp
  from core_type_path [OF a b, of "''.''"]
  have "get_path_for_type fresh_fs ''Int'' ''.'' = Inr (''core/index.html#'' @ lower ''Int'')"
    by (rule conjunct2)
  then have "get_path_for_type fresh_fs ''Int'' ''.'' = Inr ''core/index.html#int''"
    by (simp only: c append.simps)
  with a b show ?thesis by blast
qed

text \<open>
  The claim C1 as stated fails: seen from the directory \<^verbatim>\<open>methods\<close>, the core type
  \<^verbatim>\<open>int\<close> resolves to \<^verbatim>\<open>../core/index.html#int\<close>, not to \<^verbatim>\<open>core/index.html#int\<close>.
\<close>

theorem core_type_path_counterexample:
  "lower ''int'' \<in> set core_types
   \<and> get_path_for_type fresh_fs ''int'' ''methods'' = Inr ''../core/index.html#int''
   \<and> get_path_for_type fresh_fs ''int'' ''.'' = Inr ''core/index.html#int''"
  by code_simp

section \<open>Types outside the core\<close>

lemma type_path_namespaced:
  assumes "CHR ''.'' \<notin> set ns" and "CHR ''.'' \<notin> set nm"
  shows "type_path (ns @ ''.'' @ nm)
         = Inr (''types/'' @ ns @ ''/'' @ get_file_name (Name nm) True)"
proof -
  have "split (CHR ''.'') (ns @ CHR ''.'' # nm) = [ns, nm]"
    using assms by (simp add: split_append split_no_sep)
  moreover have "lower (ns @ CHR ''.'' # nm) \<notin> set core_types"
    using core_no_dot [of "ns @ CHR ''.'' # nm"] by auto
  ultimately show ?thesis by (simp add: type_path_def)
qed

lemma type_path_bare:
  assumes "CHR ''.'' \<notin> set t" and "lower t \<notin> set core_types"
  shows "type_path t = Inr (''types/'' @ get_file_name (Name t) True)"
  using assms by (simp add: type_path_def)

text \<open>
  C8. A type key \<^verbatim>\<open>ns.Foo\<close> with a single dot has the target \<^verbatim>\<open>types/ns/\<close> followed by
  \<^verbatim>\<open>get_file_name('Foo', add_extension=True)\<close>, and a bare key that is no core type has
  the target \<^verbatim>\<open>types/\<close> followed by its file name; \<^verbatim>\<open>get_path_for_type\<close> returns the
  target made relative to \<^verbatim>\<open>relative_to\<close>. With the default \<^verbatim>\<open>relative_to='.'\<close>, in an
  absolute working directory and for a namespace and names that are path components,
  it returns the target itself.
\<close>

theorem type_path_under_types:
  assumes "CHR ''.'' \<notin> set ns" and "CHR ''.'' \<notin> set nm"
    and "CHR ''.'' \<notin> set t" and "lower t \<notin> set core_types"
    and "startswith (getcwd fs) ''/''"
    and "normal ns" and "CHR ''/'' \<notin> set nm" and "CHR ''/'' \<notin> set t"
  shows "get_path_for_type fs (ns @ ''.'' @ nm) relative_to
           = get_relative_path fs
               (''types/'' @ ns @ ''/'' @ get_file_name (Name nm) True) relative_to
    \<and> get_path_for_type fs t relative_to
           = get_relative_path fs (''types/'' @ get_file_name (Name t) True) relative_to
    \<and> get_path_for_type fs (ns @ ''.'' @ nm) ''.''
           = Inr (''types/'' @ ns @ ''/'' @ get_file_name (Name nm) True)
    \<and> get_path_for_type fs t ''.'' = Inr (''types/'' @ get_file_name (Name t) True)"
proof -
  let ?fn = "get_file_name (Name nm) True" and ?ft = "get_file_name (Name t) True"
  have ty: "normal ''types''" by (simp add: normal_def)
  have fn: "normal ?fn" using assms(7) by (intro normal_file_name) (simp add: name_of_def)
  have ft: "normal ?ft" using assms(8) by (intro normal_file_name) (simp add: name_of_def)
  have a: "get_path_for_type fs (ns @ ''.'' @ nm) r
           = get_relative_path fs (''types/'' @ ns @ ''/'' @ ?fn) r" for r
    using type_path_namespaced [OF assms(1,2)] by (simp add: get_path_for_type_def)
  have b: "get_path_for_type fs t r = get_relative_path fs (''types/'' @ ?ft) r" for r
    using type_path_bare [OF assms(3,4)] by (simp add: get_path_for_type_def)
  have "get_relative_path fs (sep_join [''types'', ns, ?fn]) ''.''
        = Inr (sep_join [''types'', ns, ?fn])"
    using ty assms(6) fn by (intro relative_to_dot [OF assms(5)]) simp_all
  then have c: "get_relative_path fs (''types/'' @ ns @ ''/'' @ ?fn) ''.''
        = Inr (''types/'' @ ns @ ''/'' @ ?fn)" by simp
  have "get_relative_path fs (sep_join [''types'', ?ft]) ''.'' = Inr (sep_join [''types'', ?ft])"
    using ty ft by (intro relative_to_dot [OF assms(5)]) simp_all
  then have d: "get_relative_path fs (''types/'' @ ?ft) ''.'' = Inr (''types/'' @ ?ft)"
    by simp
  from a [of relative_to] b [of relative_to] a [of "''.''"] b [of "''.''"] c d
  show ?thesis by simp
qed

theorem type_path_under_types_witness:
  "CHR ''.'' \<notin> set ''contacts'' \<and> CHR ''.'' \<notin> set ''ResolvedPeer''
   \<and> CHR ''.'' \<notin> set ''InputPeer'' \<and> lower ''InputPeer'' \<notin> set core_types
   \<and> startswith (getcwd fresh_fs) ''/''
   \<and> normal ''contacts'' \<and> CHR ''/'' \<notin> set ''ResolvedPeer'' \<and> CHR ''/'' \<notin> set ''InputPeer''
   \<and> get_path_for_type fresh_fs ''contacts.ResolvedPeer'' ''.''
       = Inr ''types/contacts/resolved_peer.html''
   \<and> get_path_for_type fresh_fs ''InputPeer'' ''.'' = Inr ''types/input_peer.html''"
proof -
  have a: "CHR ''.'' \<notin> set ''contacts''" by simp
  have b: "CHR ''.'' \<notin> set ''ResolvedPeer''" by simp
  have c: "CHR ''.'' \<notin> set ''InputPeer''" by simp
  have d: "lower ''InputPeer'' \<notin> set core_types" by code_simp
  have e: "startswith (getcwd fresh_fs) ''/''" by code_simp
  have f: "normal ''contacts''" by (simp add: normal_def)
  have g: "CHR ''/'' \<notin> set ''ResolvedPeer''" by simp
  have h: "CHR ''/'' \<notin> set ''InputPeer''" by simp
  have i: "get_file_name (Name ''ResolvedPeer'') True = ''resolved_peer.html''" by code_simp
  have j: "get_file_name (Name ''InputPeer'') True = ''input_peer.html''" by code_simp
  from type_path_under_types [OF a b c d e f g h, of "''.''"]
  have "get_path_for_type fresh_fs (''contacts'' @ ''.'' @ ''ResolvedPeer'') ''.''
          = Inr (''types/'' @ ''contacts'' @ ''/'' @ get_file_name (Name ''ResolvedPeer'') True)"
    and "get_path_for_type fresh_fs ''InputPeer'' ''.''
          = Inr (''types/'' @ get_file_name (Name ''InputPeer'') True)"
    by blast+
  then have "get_path_for_type fresh_fs ''contacts.ResolvedPeer'' ''.''
       = Inr ''types/contacts/resolved_peer.html''"
    and "get_path_for_type fresh_fs ''InputPeer'' ''.'' = Inr ''types/input_peer.html''"
    by (simp_all only: i j append.simps)
  with a b c d e f g h show ?thesis by blast
qed

end
